theory Spec2Isabelle
  imports Complex_Main
begin

section \<open>Data model\<close>

text \<open>
  Modelled from the spec: \<open>BoundaryPoint<dim>\<close> is declared in \<open>utils/aliases.hpp\<close>, which is
  not among the sources. The spec describes it as an integer coordinate tuple of length
  \<open>dim\<close>; the initializers read nothing of it but \<open>coords[k]\<close> for \<open>k < dim\<close>. Whatever
  else the struct holds is the record's extension, so an update function may depend on it.
\<close>

record BoundaryPoint =
  coords :: "int list"

text \<open>
  Modelled from the spec: \<open>Eigen::Tensor<double, rank>\<close> is a library type. A tensor has
  one extent per axis and one cell per index tuple within the extents. The storage layout is
  left out: a cell is named by its index tuple. The scalar type is a parameter, since the
  initializers only move values from an update function into a cell.
\<close>

record 'v tensor =
  dimensions :: "nat list"
  cell :: "int list \<Rightarrow> 'v"

text \<open>
  What a call can fail with: calling an empty \<open>std::function\<close> throws
  \<open>std::bad_function_call\<close>; an index tuple outside the extents fails Eigen's range
  assertion (and is undefined behaviour without it).
\<close>

datatype error = BadFunctionCall | IndexOutOfRange

definition checkIndexRange :: "nat list \<Rightarrow> int list \<Rightarrow> bool" where
  "checkIndexRange dims indices \<longleftrightarrow> list_all2 (\<lambda>i d. 0 \<le> i \<and> i < int d) indices dims"

text \<open>\<open>velocity_tensor(coordinates) = val\<close>\<close>

definition assign :: "'v tensor \<Rightarrow> int list \<Rightarrow> 'v \<Rightarrow> error + 'v tensor" where
  "assign T indices val =
     (if checkIndexRange (dimensions T) indices
      then Inr (T\<lparr>cell := (cell T)(indices := val)\<rparr>)
      else Inl IndexOutOfRange)"

text \<open>
  \<open>std::function<double (double, BoundaryPoint<dim>)>\<close>: \<open>None\<close> is the empty function
  object, which is what a default-constructed array entry holds.
\<close>

type_synonym ('t, 'm, 'v) update_function = "('t \<Rightarrow> 'm BoundaryPoint_scheme \<Rightarrow> 'v) option"

text \<open>
  The static members of \<open>VelocityInitializer<dim>\<close>. (\<open>lattice_dimensions\<close> is declared but
  neither defined nor used, and is left out.) The four initializer classes declare the same
  members.
\<close>

record ('t, 'm, 'v) VelocityInitializer =
  inlet_nodes :: "'m BoundaryPoint_scheme list"
  outlet_nodes :: "'m BoundaryPoint_scheme list"
  inlet_update_function :: "('t, 'm, 'v) update_function list"
  outlet_update_function :: "('t, 'm, 'v) update_function list"

text \<open>
  The objects a call of \<open>update_nodes\<close> can see: the class's static members and the caller's
  two tensors.
\<close>

record ('t, 'm, 'v) memory =
  initializer :: "('t, 'm, 'v) VelocityInitializer"
  velocity_tensor :: "'v tensor"
  density_tensor :: "'v tensor"

section \<open>The sequential initializer\<close>

definition attach_nodes ::
  "'m BoundaryPoint_scheme list \<Rightarrow> 'm BoundaryPoint_scheme list \<Rightarrow>
   ('t, 'm, 'v) memory \<Rightarrow> ('t, 'm, 'v) memory" where
  "attach_nodes inlet_nodes' outlet_nodes' s =
     s\<lparr>initializer := (initializer s)\<lparr>inlet_nodes := inlet_nodes', outlet_nodes := outlet_nodes'\<rparr>\<rparr>"

definition attach_update_functions ::
  "('t, 'm, 'v) update_function list \<Rightarrow> ('t, 'm, 'v) update_function list \<Rightarrow>
   ('t, 'm, 'v) memory \<Rightarrow> ('t, 'm, 'v) memory" where
  "attach_update_functions inlet_update_function' outlet_update_function' s =
     s\<lparr>initializer := (initializer s)\<lparr>inlet_update_function := inlet_update_function',
                                     outlet_update_function := outlet_update_function'\<rparr>\<rparr>"

text \<open>\<open>for (k = 0; k < dim; ++k) coordinates[k] = node.coords[k];\<close>\<close>

function copy_loop :: "nat \<Rightarrow> 'm BoundaryPoint_scheme \<Rightarrow> nat \<Rightarrow> int list \<Rightarrow> int list" where
  "copy_loop ndim node k coordinates =
     (if k < ndim then copy_loop ndim node (Suc k) (coordinates[k := coords node ! k])
      else coordinates)"
  by pat_completeness auto
termination
  by (relation "measure (\<lambda>(ndim, node, k, coordinates). ndim - k)") auto

text \<open>
  \<open>for (j = 0; j < dim; ++j) { coordinates[dim] = j; double val = fs[j](time_step, node);
  velocity_tensor(coordinates) = val; }\<close>
\<close>

function component_loop ::
  "nat \<Rightarrow> ('t, 'm, 'v) update_function list \<Rightarrow> 't \<Rightarrow> 'm BoundaryPoint_scheme \<Rightarrow> nat \<Rightarrow>
   int list \<times> 'v tensor \<Rightarrow> error + int list \<times> 'v tensor" where
  "component_loop ndim fs time_step node j (coordinates, velocity) =
     (if j < ndim then
        (let coordinates' = coordinates[ndim := int j] in
         case fs ! j of
           None \<Rightarrow> Inl BadFunctionCall
         | Some f \<Rightarrow>
             (let val = f time_step node in
              case assign velocity coordinates' val of
                Inl e \<Rightarrow> Inl e
              | Inr velocity' \<Rightarrow>
                  component_loop ndim fs time_step node (Suc j) (coordinates', velocity')))
      else Inr (coordinates, velocity))"
  by pat_completeness auto
termination
  by (relation "measure (\<lambda>(ndim, fs, time_step, node, j, s). ndim - j)") auto

text \<open>
  The body of the loop over the nodes, for one node: the copy loop followed by the component
  loop, on the scratch array \<open>coordinates\<close> and the velocity tensor.
\<close>

fun update_node ::
  "nat \<Rightarrow> ('t, 'm, 'v) update_function list \<Rightarrow> 't \<Rightarrow> 'm BoundaryPoint_scheme \<Rightarrow>
   int list \<times> 'v tensor \<Rightarrow> error + int list \<times> 'v tensor" where
  "update_node ndim fs time_step node (coordinates, velocity) =
     component_loop ndim fs time_step node 0 (copy_loop ndim node 0 coordinates, velocity)"

text \<open>\<open>for (i = 0; i < nodes_size; ++i) { ... nodes[i] ... }\<close>\<close>

function node_loop ::
  "nat \<Rightarrow> ('t, 'm, 'v) update_function list \<Rightarrow> 't \<Rightarrow> 'm BoundaryPoint_scheme list \<Rightarrow> nat \<Rightarrow>
   nat \<Rightarrow> int list \<times> 'v tensor \<Rightarrow> error + int list \<times> 'v tensor" where
  "node_loop ndim fs time_step nodes nodes_size i (coordinates, velocity) =
     (if i < nodes_size then
        (case update_node ndim fs time_step (nodes ! i) (coordinates, velocity) of
           Inl e \<Rightarrow> Inl e
         | Inr s \<Rightarrow> node_loop ndim fs time_step nodes nodes_size (Suc i) s)
      else Inr (coordinates, velocity))"
  by pat_completeness auto
termination
  by (relation "measure (\<lambda>(ndim, fs, time_step, nodes, nodes_size, i, s). nodes_size - i)") auto

text \<open>
  \<open>VelocityInitializer<dim>::update_nodes(time_step, velocity_tensor, density_tensor)\<close>.
  The velocity tensor is passed by reference, the density tensor by value: the callee's copy
  is \<open>density_copy\<close>, which the body never reads. The scratch array \<open>coordinates\<close> is
  declared without an initial value; every entry is assigned before the first read, and the
  model starts it at zero. A failing call yields only the error.
\<close>

definition update_nodes ::
  "nat \<Rightarrow> 't \<Rightarrow> ('t, 'm, 'v) memory \<Rightarrow> error + ('t, 'm, 'v) memory" where
  "update_nodes ndim time_step s =
     (let density_copy = density_tensor s;
          inlet_size = length (inlet_nodes (initializer s));
          outlet_size = length (outlet_nodes (initializer s));
          coordinates = replicate (Suc ndim) 0
      in case node_loop ndim (inlet_update_function (initializer s)) time_step
                (inlet_nodes (initializer s)) inlet_size 0 (coordinates, velocity_tensor s) of
           Inl e \<Rightarrow> Inl e
         | Inr (coordinates', velocity') \<Rightarrow>
             (case node_loop ndim (outlet_update_function (initializer s)) time_step
                     (outlet_nodes (initializer s)) outlet_size 0 (coordinates', velocity') of
                Inl e \<Rightarrow> Inl e
              | Inr (coordinates'', velocity'') \<Rightarrow> Inr (s\<lparr>velocity_tensor := velocity''\<rparr>)))"

text \<open>
  The same function with the one indeterminate value of the C++ made a parameter:
  \<open>Eigen::array<Eigen::Index, dim+1> coordinates;\<close> has no initializer, so what the array
  holds when the first loop starts differs from call to call. \<open>update_nodes\<close> is the instance
  that starts from zeros.
\<close>

definition update_nodes_scratch ::
  "int list \<Rightarrow> nat \<Rightarrow> 't \<Rightarrow> ('t, 'm, 'v) memory \<Rightarrow> error + ('t, 'm, 'v) memory" where
  "update_nodes_scratch indeterminate ndim time_step s =
     (let density_copy = density_tensor s;
          inlet_size = length (inlet_nodes (initializer s));
          outlet_size = length (outlet_nodes (initializer s));
          coordinates = indeterminate
      in case node_loop ndim (inlet_update_function (initializer s)) time_step
                (inlet_nodes (initializer s)) inlet_size 0 (coordinates, velocity_tensor s) of
           Inl e \<Rightarrow> Inl e
         | Inr (coordinates', velocity') \<Rightarrow>
             (case node_loop ndim (outlet_update_function (initializer s)) time_step
                     (outlet_nodes (initializer s)) outlet_size 0 (coordinates', velocity') of
                Inl e \<Rightarrow> Inl e
              | Inr (coordinates'', velocity'') \<Rightarrow> Inr (s\<lparr>velocity_tensor := velocity''\<rparr>)))"

section \<open>The other execution variants\<close>

text \<open>
  \<open>OpenACCVelocityInitializer<dim>::update_nodes\<close>: both \<open>#pragma acc parallel loop\<close> lines
  are commented out, which leaves the two loops of the sequential initializer.
\<close>

definition OpenACC_update_nodes ::
  "nat \<Rightarrow> 't \<Rightarrow> ('t, 'm, 'v) memory \<Rightarrow> error + ('t, 'm, 'v) memory" where
  "OpenACC_update_nodes ndim time_step s =
     (let density_copy = density_tensor s;
          inlet_size = length (inlet_nodes (initializer s));
          outlet_size = length (outlet_nodes (initializer s));
          coordinates = replicate (Suc ndim) 0
      in case node_loop ndim (inlet_update_function (initializer s)) time_step
                (inlet_nodes (initializer s)) inlet_size 0 (coordinates, velocity_tensor s) of
           Inl e \<Rightarrow> Inl e
         | Inr (coordinates', velocity') \<Rightarrow>
             (case node_loop ndim (outlet_update_function (initializer s)) time_step
                     (outlet_nodes (initializer s)) outlet_size 0 (coordinates', velocity') of
                Inl e \<Rightarrow> Inl e
              | Inr (coordinates'', velocity'') \<Rightarrow> Inr (s\<lparr>velocity_tensor := velocity''\<rparr>)))"

text \<open>
  The two parallel variants run the bodies of a loop on several threads, so the statements of
  different bodies interleave. A body is then a small program of its own: \<open>pc\<close> says which
  statement it executes next.
  \<^item> \<open>Copy k\<close>: the test \<open>k < dim\<close> and \<open>coordinates[k] = node.coords[k]\<close>;
  \<^item> \<open>SetIndex j\<close>: the test \<open>j < dim\<close> and \<open>coordinates[dim] = j\<close>;
  \<^item> \<open>Store j\<close>: \<open>double val = fs[j](time_step, node); velocity_tensor(coordinates) = val\<close>
    (the call touches nothing another body sees, so it is one step with the store).
  \<open>body_step\<close> executes the next statement of one body on the array \<open>coordinates\<close> it uses
  and on the velocity tensor.
\<close>

datatype pc = Copy nat | SetIndex nat | Store nat | Finished

fun body_step ::
  "nat \<Rightarrow> ('t, 'm, 'v) update_function list \<Rightarrow> 't \<Rightarrow> 'm BoundaryPoint_scheme \<Rightarrow> pc \<Rightarrow>
   int list \<times> 'v tensor \<Rightarrow> error + pc \<times> int list \<times> 'v tensor" where
  "body_step ndim fs time_step node (Copy k) (coordinates, velocity) =
     (if k < ndim then Inr (Copy (Suc k), coordinates[k := coords node ! k], velocity)
      else Inr (SetIndex 0, coordinates, velocity))"
| "body_step ndim fs time_step node (SetIndex j) (coordinates, velocity) =
     (if j < ndim then Inr (Store j, coordinates[ndim := int j], velocity)
      else Inr (Finished, coordinates, velocity))"
| "body_step ndim fs time_step node (Store j) (coordinates, velocity) =
     (case fs ! j of
        None \<Rightarrow> Inl BadFunctionCall
      | Some f \<Rightarrow>
          (let val = f time_step node in
           case assign velocity coordinates val of
             Inl e \<Rightarrow> Inl e
           | Inr velocity' \<Rightarrow> Inr (SetIndex (Suc j), coordinates, velocity')))"
| "body_step ndim fs time_step node Finished (coordinates, velocity) =
     Inr (Finished, coordinates, velocity)"

text \<open>
  \<open>std::for_each(std::execution::par, nodes.begin(), nodes.end(), [&](const auto node) {...})\<close>
  of \<open>STDExecVelocityInitializer\<close>. The lambda captures by reference, and \<open>coordinates\<close> is
  declared outside it: all bodies use the one array. A schedule names, step by step, the body
  that executes its next statement (an entry that names no body is skipped).
\<close>

fun STDExec_for_each ::
  "nat \<Rightarrow> ('t, 'm, 'v) update_function list \<Rightarrow> 't \<Rightarrow> 'm BoundaryPoint_scheme list \<Rightarrow>
   nat list \<Rightarrow> pc list \<Rightarrow> int list \<times> 'v tensor \<Rightarrow> error + pc list \<times> int list \<times> 'v tensor" where
  "STDExec_for_each ndim fs time_step nodes [] pcs shared = Inr (pcs, shared)"
| "STDExec_for_each ndim fs time_step nodes (i # schedule) pcs shared =
     (if i < length pcs then
        (case body_step ndim fs time_step (nodes ! i) (pcs ! i) shared of
           Inl e \<Rightarrow> Inl e
         | Inr (pc', shared') \<Rightarrow>
             STDExec_for_each ndim fs time_step nodes schedule (pcs[i := pc']) shared')
      else STDExec_for_each ndim fs time_step nodes schedule pcs shared)"

text \<open>
  \<open>#pragma omp parallel for private(coordinates)\<close> of \<open>OMPVelocityInitializer\<close>: every body
  works on a private array \<open>coordinates\<close>; only the velocity tensor is shared.
\<close>

fun OMP_parallel_for ::
  "nat \<Rightarrow> ('t, 'm, 'v) update_function list \<Rightarrow> 't \<Rightarrow> 'm BoundaryPoint_scheme list \<Rightarrow>
   nat list \<Rightarrow> (pc \<times> int list) list \<Rightarrow> 'v tensor \<Rightarrow> error + (pc \<times> int list) list \<times> 'v tensor" where
  "OMP_parallel_for ndim fs time_step nodes [] bodies velocity = Inr (bodies, velocity)"
| "OMP_parallel_for ndim fs time_step nodes (i # schedule) bodies velocity =
     (if i < length bodies then
        (case body_step ndim fs time_step (nodes ! i) (fst (bodies ! i))
                (snd (bodies ! i), velocity) of
           Inl e \<Rightarrow> Inl e
         | Inr (pc', coordinates', velocity') \<Rightarrow>
             OMP_parallel_for ndim fs time_step nodes schedule
               (bodies[i := (pc', coordinates')]) velocity')
      else OMP_parallel_for ndim fs time_step nodes schedule bodies velocity)"

text \<open>
  \<open>update_nodes\<close> of the two parallel variants, under a schedule for the inlet loop and one
  for the outlet loop. A parallel loop ends when all its bodies have finished, so a schedule
  that leaves a body unfinished is no execution: the result is \<open>None\<close>.
\<close>

definition STDExec_update_nodes ::
  "nat \<Rightarrow> 't \<Rightarrow> nat list \<times> nat list \<Rightarrow> ('t, 'm, 'v) memory \<Rightarrow>
   (error + ('t, 'm, 'v) memory) option" where
  "STDExec_update_nodes ndim time_step schedules s =
     (let density_copy = density_tensor s;
          coordinates = replicate (Suc ndim) 0
      in case STDExec_for_each ndim (inlet_update_function (initializer s)) time_step
                (inlet_nodes (initializer s)) (fst schedules)
                (replicate (length (inlet_nodes (initializer s))) (Copy 0))
                (coordinates, velocity_tensor s) of
           Inl e \<Rightarrow> Some (Inl e)
         | Inr (pcs, shared) \<Rightarrow>
             if list_all (\<lambda>pc. pc = Finished) pcs then
               (case STDExec_for_each ndim (outlet_update_function (initializer s)) time_step
                       (outlet_nodes (initializer s)) (snd schedules)
                       (replicate (length (outlet_nodes (initializer s))) (Copy 0)) shared of
                  Inl e \<Rightarrow> Some (Inl e)
                | Inr (pcs', coordinates'', velocity'') \<Rightarrow>
                    if list_all (\<lambda>pc. pc = Finished) pcs'
                    then Some (Inr (s\<lparr>velocity_tensor := velocity''\<rparr>)) else None)
             else None)"

definition OMP_update_nodes ::
  "nat \<Rightarrow> 't \<Rightarrow> nat list \<times> nat list \<Rightarrow> ('t, 'm, 'v) memory \<Rightarrow>
   (error + ('t, 'm, 'v) memory) option" where
  "OMP_update_nodes ndim time_step schedules s =
     (let density_copy = density_tensor s;
          coordinates = replicate (Suc ndim) 0
      in case OMP_parallel_for ndim (inlet_update_function (initializer s)) time_step
                (inlet_nodes (initializer s)) (fst schedules)
                (replicate (length (inlet_nodes (initializer s))) (Copy 0, coordinates))
                (velocity_tensor s) of
           Inl e \<Rightarrow> Some (Inl e)
         | Inr (bodies, velocity') \<Rightarrow>
             if list_all (\<lambda>body. fst body = Finished) bodies then
               (case OMP_parallel_for ndim (outlet_update_function (initializer s)) time_step
                       (outlet_nodes (initializer s)) (snd schedules)
                       (replicate (length (outlet_nodes (initializer s))) (Copy 0, coordinates))
                       velocity' of
                  Inl e \<Rightarrow> Some (Inl e)
                | Inr (bodies', velocity'') \<Rightarrow>
                    if list_all (\<lambda>body. fst body = Finished) bodies'
                    then Some (Inr (s\<lparr>velocity_tensor := velocity''\<rparr>)) else None)
             else None)"

text \<open>
  The schedule that runs the bodies one after the other, in the order of the node list: a body
  takes \<open>3 * dim + 2\<close> steps (\<open>dim + 1\<close> of the copy loop, \<open>2 * dim + 1\<close> of the component loop).
\<close>

definition sequential_schedule :: "nat \<Rightarrow> nat \<Rightarrow> nat list" where
  "sequential_schedule ndim n = concat (map (replicate (3 * ndim + 2)) [0..<n])"

section \<open>Specification-level notions\<close>

text \<open>
  What the C++ types guarantee and the lists of the model do not: both function arrays have
  \<open>dim\<close> entries (\<open>std::array<..., dim>\<close>) and every point has \<open>dim\<close> coordinates.
\<close>

definition well_formed :: "nat \<Rightarrow> ('t, 'm, 'v) memory \<Rightarrow> bool" where
  "well_formed ndim s \<longleftrightarrow>
     length (inlet_update_function (initializer s)) = ndim \<and>
     length (outlet_update_function (initializer s)) = ndim \<and>
     (\<forall>node \<in> set (inlet_nodes (initializer s)) \<union> set (outlet_nodes (initializer s)).
        length (coords node) = ndim)"

text \<open>
  The update of one node is defined when every function it calls is set and every cell it
  writes lies within the extents of the tensor.
\<close>

definition node_defined ::
  "nat \<Rightarrow> ('t, 'm, 'v) update_function list \<Rightarrow> nat list \<Rightarrow> 'm BoundaryPoint_scheme \<Rightarrow> bool" where
  "node_defined ndim fs dims node \<longleftrightarrow>
     (\<forall>j<ndim. fs ! j \<noteq> None \<and> checkIndexRange dims (coords node @ [int j]))"

definition update_defined :: "nat \<Rightarrow> ('t, 'm, 'v) memory \<Rightarrow> bool" where
  "update_defined ndim s \<longleftrightarrow>
     (\<forall>node \<in> set (inlet_nodes (initializer s)).
        node_defined ndim (inlet_update_function (initializer s))
          (dimensions (velocity_tensor s)) node) \<and>
     (\<forall>node \<in> set (outlet_nodes (initializer s)).
        node_defined ndim (outlet_update_function (initializer s))
          (dimensions (velocity_tensor s)) node)"

text \<open>
  The stores of a call as a list, in program order: the cell index and the value stored.
  \<open>store\<close> replays such a list on the cells of a tensor.
\<close>

definition node_writes ::
  "nat \<Rightarrow> ('t, 'm, 'v) update_function list \<Rightarrow> 't \<Rightarrow> 'm BoundaryPoint_scheme \<Rightarrow>
   (int list \<times> 'v) list" where
  "node_writes ndim fs time_step node =
     map (\<lambda>j. (coords node @ [int j], the (fs ! j) time_step node)) [0..<ndim]"

definition all_writes :: "nat \<Rightarrow> 't \<Rightarrow> ('t, 'm, 'v) memory \<Rightarrow> (int list \<times> 'v) list" where
  "all_writes ndim time_step s =
     concat (map (node_writes ndim (inlet_update_function (initializer s)) time_step)
               (inlet_nodes (initializer s))) @
     concat (map (node_writes ndim (outlet_update_function (initializer s)) time_step)
               (outlet_nodes (initializer s)))"

definition store :: "('i \<times> 'v) list \<Rightarrow> ('i \<Rightarrow> 'v) \<Rightarrow> 'i \<Rightarrow> 'v" where
  "store ws f = foldl (\<lambda>g (i, x). g(i := x)) f ws"

text \<open>The cells the update of one node stores into: the indices its component loop forms.\<close>

definition written_cells :: "nat \<Rightarrow> 'm BoundaryPoint_scheme \<Rightarrow> int list set" where
  "written_cells ndim node =
     (\<lambda>j. (copy_loop ndim node 0 (replicate (Suc ndim) 0))[ndim := int j]) ` {..<ndim}"

text \<open>
  For the thread-parallel variant: how many components a body has stored, what its private
  array holds at each statement, and the invariant of the parallel loop. Started on the
  tensor \<open>v0\<close>, the cells the bodies have stored into so far hold the function values, all
  other cells are those of \<open>v0\<close>.
\<close>

fun stores_done :: "nat \<Rightarrow> pc \<Rightarrow> nat" where
  "stores_done ndim (Copy k) = 0"
| "stores_done ndim (SetIndex j) = j"
| "stores_done ndim (Store j) = j"
| "stores_done ndim Finished = ndim"

fun body_consistent :: "nat \<Rightarrow> 'm BoundaryPoint_scheme \<Rightarrow> pc \<times> int list \<Rightarrow> bool" where
  "body_consistent ndim node (Copy k, c) \<longleftrightarrow>
     length c = Suc ndim \<and> k \<le> ndim \<and> take k c = take k (coords node)"
| "body_consistent ndim node (SetIndex j, c) \<longleftrightarrow>
     length c = Suc ndim \<and> j \<le> ndim \<and> take ndim c = coords node"
| "body_consistent ndim node (Store j, c) \<longleftrightarrow> j < ndim \<and> c = coords node @ [int j]"
| "body_consistent ndim node (Finished, c) \<longleftrightarrow> True"

definition OMP_invariant ::
  "nat \<Rightarrow> ('t, 'm, 'v) update_function list \<Rightarrow> 't \<Rightarrow> 'm BoundaryPoint_scheme list \<Rightarrow>
   'v tensor \<Rightarrow> (pc \<times> int list) list \<Rightarrow> 'v tensor \<Rightarrow> bool" where
  "OMP_invariant ndim fs t nodes v0 bodies v \<longleftrightarrow>
     length bodies = length nodes \<and>
     (\<forall>i<length nodes. body_consistent ndim (nodes ! i) (bodies ! i)) \<and>
     dimensions v = dimensions v0 \<and>
     (\<forall>i<length nodes. \<forall>j<stores_done ndim (fst (bodies ! i)).
        cell v (coords (nodes ! i) @ [int j]) = the (fs ! j) t (nodes ! i)) \<and>
     (\<forall>indices.
        (\<forall>i<length nodes. \<forall>j<stores_done ndim (fst (bodies ! i)).
           indices \<noteq> coords (nodes ! i) @ [int j]) \<longrightarrow>
        cell v indices = cell v0 indices)"

section \<open>Concrete configurations\<close>

text \<open>
  A 3 by 3 lattice in two dimensions with all velocities zero; a cavity with two inlet nodes
  and one outlet node on it; an initializer to which nothing was attached; a configuration
  that registers one coordinate both as an inlet and as an outlet, and the memory after its
  update; two inlet nodes with the constant inflow (0.2, 0) and unset outlet functions; and
  the cavity after a second \<open>attach_nodes\<close> that keeps one inlet node only.
\<close>

definition lattice :: "real tensor" where
  "lattice = \<lparr>dimensions = [3, 3, 2], cell = (\<lambda>indices. 0)\<rparr>"

definition cavity :: "(real, unit, real) memory" where
  "cavity =
     \<lparr>initializer =
        \<lparr>inlet_nodes = [\<lparr>coords = [0, 1]\<rparr>, \<lparr>coords = [0, 2]\<rparr>],
         outlet_nodes = [\<lparr>coords = [2, 1]\<rparr>],
         inlet_update_function = [Some (\<lambda>t p. 0.2), Some (\<lambda>t p. 0)],
         outlet_update_function = [Some (\<lambda>t p. t), Some (\<lambda>t p. real_of_int (coords p ! 1))]\<rparr>,
      velocity_tensor = lattice,
      density_tensor = \<lparr>dimensions = [3, 3], cell = (\<lambda>indices. 1)\<rparr>\<rparr>"

definition unattached :: "(real, unit, real) memory" where
  "unattached =
     \<lparr>initializer =
        \<lparr>inlet_nodes = [], outlet_nodes = [],
         inlet_update_function = [None, None], outlet_update_function = [None, None]\<rparr>,
      velocity_tensor = lattice,
      density_tensor = \<lparr>dimensions = [3, 3], cell = (\<lambda>indices. 1)\<rparr>\<rparr>"

definition overlap :: "(real, unit, real) memory" where
  "overlap =
     \<lparr>initializer =
        \<lparr>inlet_nodes = [\<lparr>coords = [0, 1]\<rparr>],
         outlet_nodes = [\<lparr>coords = [0, 1]\<rparr>],
         inlet_update_function = [Some (\<lambda>t p. 1), Some (\<lambda>t p. 1)],
         outlet_update_function = [Some (\<lambda>t p. 2), Some (\<lambda>t p. 2)]\<rparr>,
      velocity_tensor = lattice,
      density_tensor = \<lparr>dimensions = [3, 3], cell = (\<lambda>indices. 1)\<rparr>\<rparr>"

definition overlap_after :: "(real, unit, real) memory" where
  "overlap_after =
     overlap\<lparr>velocity_tensor := lattice\<lparr>cell := (cell lattice)([0, 1, 0] := 2, [0, 1, 1] := 2)\<rparr>\<rparr>"

definition inflow :: "(real, unit, real) memory" where
  "inflow =
     \<lparr>initializer =
        \<lparr>inlet_nodes = [\<lparr>coords = [0, 1]\<rparr>, \<lparr>coords = [0, 2]\<rparr>],
         outlet_nodes = [],
         inlet_update_function = [Some (\<lambda>t p. 0.2), Some (\<lambda>t p. 0)],
         outlet_update_function = [None, None]\<rparr>,
      velocity_tensor = lattice,
      density_tensor = \<lparr>dimensions = [3, 3], cell = (\<lambda>indices. 1)\<rparr>\<rparr>"

definition reattached :: "(real, unit, real) memory" where
  "reattached =
     attach_nodes [\<lparr>coords = [0, 1]\<rparr>] []
       (attach_nodes [\<lparr>coords = [0, 1]\<rparr>, \<lparr>coords = [0, 2]\<rparr>] [\<lparr>coords = [2, 1]\<rparr>] cavity)"

text \<open>The cavity with another density tensor of the same extents.\<close>

definition cavity_refilled :: "(real, unit, real) memory" where
  "cavity_refilled = cavity\<lparr>density_tensor := \<lparr>dimensions = [3, 3], cell = (\<lambda>indices. 2)\<rparr>\<rparr>"

text \<open>
  A schedule of the inlet loop of \<open>inflow\<close> in which the body of the second node copies its
  coordinates while the body of the first node is between setting its component index and
  storing; the memory after the sequential update of \<open>inflow\<close>; and the memory after the update
  under that schedule with the array \<open>coordinates\<close> shared.
\<close>

definition racing_schedule :: "nat list" where
  "racing_schedule = [0, 0, 0, 0, 1, 1, 0, 0, 0, 0, 1, 1, 1, 1, 1, 1]"

definition inflow_after :: "(real, unit, real) memory" where
  "inflow_after =
     inflow\<lparr>velocity_tensor :=
       lattice\<lparr>cell := (cell lattice)([0, 1, 0] := 0.2, [0, 1, 1] := 0, [0, 2, 0] := 0.2, [0, 2, 1] := 0)\<rparr>\<rparr>"

definition inflow_raced :: "(real, unit, real) memory" where
  "inflow_raced =
     inflow\<lparr>velocity_tensor := lattice\<lparr>cell := (cell lattice)([0, 2, 0] := 0.2, [0, 2, 1] := 0)\<rparr>\<rparr>"

section \<open>The loops, characterised\<close>

declare copy_loop.simps [simp del] component_loop.simps [simp del] node_loop.simps [simp del]

lemma assign_dimensions: "assign T indices val = Inr T' \<Longrightarrow> dimensions T' = dimensions T"
  by (auto simp: assign_def split: if_splits)

lemma store_Nil [simp]: "store [] f = f"
  by (simp add: store_def)

lemma store_Cons [simp]: "store ((i, x) # ws) f = store ws (f(i := x))"
  by (simp add: store_def)

lemma store_append [simp]: "store (ws @ ws') f = store ws' (store ws f)"
  by (simp add: store_def)

lemma store_other: "i \<notin> fst ` set ws \<Longrightarrow> store ws f i = f i"
  by (induction ws arbitrary: f) auto

lemma store_last: "i \<notin> fst ` set ws' \<Longrightarrow> store (ws @ (i, x) # ws') f i = x"
  by (simp add: store_other)

lemma copy_loop_eq:
  assumes "length (coords node) = ndim" "length c = Suc ndim" "k \<le> ndim"
  shows "copy_loop ndim node k c = take k c @ drop k (coords node) @ drop ndim c"
  using assms
proof (induction ndim node k c rule: copy_loop.induct)
  case (1 ndim node k c)
  show ?case
  proof (cases "k < ndim")
    case True
    have "copy_loop ndim node k c = copy_loop ndim node (Suc k) (c[k := coords node ! k])"
      using True by (simp add: copy_loop.simps [of ndim node k])
    also have "\<dots> = take (Suc k) (c[k := coords node ! k]) @ drop (Suc k) (coords node) @ drop ndim (c[k := coords node ! k])"
      using "1.IH" [OF True] "1.prems" True by simp
    also have "\<dots> = take k c @ drop k (coords node) @ drop ndim c"
      using "1.prems" True
      by (simp add: take_Suc_conv_app_nth Cons_nth_drop_Suc)
    finally show ?thesis .
  next
    case False
    then have "copy_loop ndim node k c = c"
      by (simp add: copy_loop.simps [of ndim node k])
    with False "1.prems" show ?thesis by simp
  qed
qed

lemma component_loop_Inr:
  assumes "length c = Suc ndim"
    and "\<forall>j'. j \<le> j' \<and> j' < ndim \<longrightarrow> fs ! j' \<noteq> None \<and> checkIndexRange (dimensions T) (c[ndim := int j'])"
  shows "\<exists>c'. length c' = Suc ndim \<and> take ndim c' = take ndim c \<and>
           component_loop ndim fs t node j (c, T) =
             Inr (c', T\<lparr>cell := store (map (\<lambda>j'. (c[ndim := int j'], the (fs ! j') t node)) [j..<ndim]) (cell T)\<rparr>)"
  using assms
proof (induction ndim fs t node j "(c, T)" arbitrary: c T rule: component_loop.induct)
  case (1 ndim fs t node j c T)
  show ?case
  proof (cases "j < ndim")
    case False
    then show ?thesis using "1.prems" by (simp add: component_loop.simps [of ndim fs t node j])
  next
    case True
    then obtain f where f: "fs ! j = Some f" and r: "checkIndexRange (dimensions T) (c[ndim := int j])"
      using "1.prems" by auto
    let ?c = "c[ndim := int j]"
    let ?T = "T\<lparr>cell := (cell T)(?c := f t node)\<rparr>"
    have a: "assign T ?c (f t node) = Inr ?T"
      using r by (simp add: assign_def)
    have p: "\<forall>j'. Suc j \<le> j' \<and> j' < ndim \<longrightarrow> fs ! j' \<noteq> None \<and> checkIndexRange (dimensions ?T) (?c[ndim := int j'])"
      using "1.prems" by simp
    from "1.hyps" [OF True refl f refl a _ p] "1.prems"(1)
    obtain c' where c': "length c' = Suc ndim" "take ndim c' = take ndim ?c"
      "component_loop ndim fs t node (Suc j) (?c, ?T) =
         Inr (c', ?T\<lparr>cell := store (map (\<lambda>j'. (?c[ndim := int j'], the (fs ! j') t node)) [Suc j..<ndim]) (cell ?T)\<rparr>)"
      by auto
    have "component_loop ndim fs t node j (c, T) = component_loop ndim fs t node (Suc j) (?c, ?T)"
      using True f a by (simp add: component_loop.simps [of ndim fs t node j] Let_def)
    then show ?thesis
      using c' True f by (auto simp: upt_conv_Cons intro!: exI [of _ c'])
  qed
qed


lemma component_loop_defined:
  assumes "component_loop ndim fs t node j (c, T) = Inr r" "j \<le> j'" "j' < ndim"
  shows "fs ! j' \<noteq> None \<and> checkIndexRange (dimensions T) (c[ndim := int j'])"
  using assms
proof (induction ndim fs t node j "(c, T)" arbitrary: c T rule: component_loop.induct)
  case (1 ndim fs t node j c T)
  from "1.prems" have lt: "j < ndim" by simp
  from "1.prems"(1) lt obtain f where f: "fs ! j = Some f"
    by (auto simp: component_loop.simps [of ndim fs t node j] Let_def split: option.splits)
  let ?c = "c[ndim := int j]"
  from "1.prems"(1) lt f obtain T' where a: "assign T ?c (f t node) = Inr T'"
    and rest: "component_loop ndim fs t node (Suc j) (?c, T') = Inr r"
    by (auto simp: component_loop.simps [of ndim fs t node j] Let_def split: sum.splits)
  from a have r: "checkIndexRange (dimensions T) ?c" and d: "dimensions T' = dimensions T"
    by (auto simp: assign_def split: if_splits)
  show ?case
  proof (cases "j' = j")
    case True
    with f r show ?thesis by simp
  next
    case False
    with "1.prems" have "Suc j \<le> j'" by simp
    from "1.hyps" [OF lt refl f refl a rest this "1.prems"(3)] d
    show ?thesis by simp
  qed
qed

lemma copy_loop_index:
  assumes "length (coords node) = ndim" "length c = Suc ndim"
  shows "(copy_loop ndim node 0 c)[ndim := int j] = coords node @ [int j]"
    and "length (copy_loop ndim node 0 c) = Suc ndim"
proof -
  have "drop ndim c = [c ! ndim]"
    using assms(2) Cons_nth_drop_Suc [of ndim c] by simp
  then show "(copy_loop ndim node 0 c)[ndim := int j] = coords node @ [int j]"
    and "length (copy_loop ndim node 0 c) = Suc ndim"
    using assms by (simp_all add: copy_loop_eq list_update_append)
qed

lemma node_body_Inr:
  assumes "length (coords node) = ndim" "length c = Suc ndim"
    and "node_defined ndim fs (dimensions T) node"
  shows "\<exists>c'. length c' = Suc ndim \<and>
           update_node ndim fs t node (c, T) =
             Inr (c', T\<lparr>cell := store (node_writes ndim fs t node) (cell T)\<rparr>)"
proof -
  let ?c = "copy_loop ndim node 0 c"
  have "\<forall>j'. 0 \<le> j' \<and> j' < ndim \<longrightarrow> fs ! j' \<noteq> None \<and> checkIndexRange (dimensions T) (?c[ndim := int j'])"
    using assms by (simp add: node_defined_def copy_loop_index)
  from component_loop_Inr [OF copy_loop_index(2) [OF assms(1,2)] this, of t node]
  show ?thesis
    using assms by (auto simp: node_writes_def copy_loop_index)
qed

lemma node_body_defined:
  assumes "length (coords node) = ndim" "length c = Suc ndim"
    and "update_node ndim fs t node (c, T) = Inr r"
  shows "node_defined ndim fs (dimensions T) node"
  using component_loop_defined [OF assms(3) [unfolded update_node.simps]] assms(1,2)
  by (simp add: node_defined_def copy_loop_index)

lemma component_loop_dimensions:
  assumes "component_loop ndim fs t node j (c, T) = Inr (c', T')"
  shows "dimensions T' = dimensions T \<and> length c' = length c"
  using assms
proof (induction ndim fs t node j "(c, T)" arbitrary: c T rule: component_loop.induct)
  case (1 ndim fs t node j c T)
  show ?case
  proof (cases "j < ndim")
    case False
    with "1.prems" show ?thesis by (simp add: component_loop.simps [of ndim fs t node j])
  next
    case True
    from "1.prems" True obtain f where f: "fs ! j = Some f"
      by (auto simp: component_loop.simps [of ndim fs t node j] Let_def split: option.splits)
    let ?c = "c[ndim := int j]"
    from "1.prems" True f obtain T1 where a: "assign T ?c (f t node) = Inr T1"
      and rest: "component_loop ndim fs t node (Suc j) (?c, T1) = Inr (c', T')"
      by (auto simp: component_loop.simps [of ndim fs t node j] Let_def split: sum.splits)
    from "1.hyps" [OF True refl f refl a rest] assign_dimensions [OF a]
    show ?thesis by simp
  qed
qed


lemma node_loop_Inr:
  assumes "length c = Suc ndim" "n = length nodes"
    and "\<forall>node\<in>set (drop i nodes). length (coords node) = ndim \<and> node_defined ndim fs (dimensions T) node"
  shows "\<exists>c'. length c' = Suc ndim \<and>
           node_loop ndim fs t nodes n i (c, T) =
             Inr (c', T\<lparr>cell := store (concat (map (node_writes ndim fs t) (drop i nodes))) (cell T)\<rparr>)"
  using assms
proof (induction ndim fs t nodes n i "(c, T)" arbitrary: c T rule: node_loop.induct)
  case (1 ndim fs t nodes n i c T)
  show ?case
  proof (cases "i < n")
    case False
    then have "node_loop ndim fs t nodes n i (c, T) = Inr (c, T)"
      by (simp add: node_loop.simps [of ndim fs t nodes n i])
    with False "1.prems" show ?thesis by simp
  next
    case True
    with "1.prems" have d: "drop i nodes = nodes ! i # drop (Suc i) nodes"
      by (simp add: Cons_nth_drop_Suc)
    with "1.prems" have wf: "length (coords (nodes ! i)) = ndim"
      and ok: "node_defined ndim fs (dimensions T) (nodes ! i)" by simp_all
    let ?T = "T\<lparr>cell := store (node_writes ndim fs t (nodes ! i)) (cell T)\<rparr>"
    from node_body_Inr [OF wf "1.prems"(1) ok, of t]
    obtain c1 where c1: "length c1 = Suc ndim"
      "update_node ndim fs t (nodes ! i) (c, T) = Inr (c1, ?T)"
      by blast
    have "\<forall>node\<in>set (drop (Suc i) nodes). length (coords node) = ndim \<and> node_defined ndim fs (dimensions ?T) node"
      using "1.prems"(3) d by simp
    from "1.hyps" [OF True c1(2) c1(1) "1.prems"(2) this]
    obtain c' where c': "length c' = Suc ndim"
      "node_loop ndim fs t nodes n (Suc i) (c1, ?T) =
         Inr (c', ?T\<lparr>cell := store (concat (map (node_writes ndim fs t) (drop (Suc i) nodes))) (cell ?T)\<rparr>)"
      by blast
    have "node_loop ndim fs t nodes n i (c, T) = node_loop ndim fs t nodes n (Suc i) (c1, ?T)"
      using True c1(2) by (simp add: node_loop.simps [of ndim fs t nodes n i])
    with c' d show ?thesis by (auto intro!: exI [of _ c'])
  qed
qed

lemma node_loop_defined:
  assumes "node_loop ndim fs t nodes n i (c, T) = Inr r" "length c = Suc ndim" "n = length nodes"
    and "\<forall>node\<in>set (drop i nodes). length (coords node) = ndim"
  shows "\<forall>node\<in>set (drop i nodes). node_defined ndim fs (dimensions T) node"
  using assms
proof (induction ndim fs t nodes n i "(c, T)" arbitrary: c T rule: node_loop.induct)
  case (1 ndim fs t nodes n i c T)
  show ?case
  proof (cases "i < n")
    case False
    with "1.prems" show ?thesis by simp
  next
    case True
    with "1.prems" have d: "drop i nodes = nodes ! i # drop (Suc i) nodes"
      by (simp add: Cons_nth_drop_Suc)
    with "1.prems" have wf: "length (coords (nodes ! i)) = ndim" by simp
    from "1.prems"(1) True obtain c1 T1
      where b: "update_node ndim fs t (nodes ! i) (c, T) = Inr (c1, T1)"
        and rest: "node_loop ndim fs t nodes n (Suc i) (c1, T1) = Inr r"
      by (auto simp: node_loop.simps [of ndim fs t nodes n i] split: sum.splits)
    from component_loop_dimensions [OF b [unfolded update_node.simps]]
      copy_loop_index(2) [OF wf "1.prems"(2)]
    have T1: "dimensions T1 = dimensions T" and c1: "length c1 = Suc ndim" by simp_all
    have "\<forall>node\<in>set (drop (Suc i) nodes). length (coords node) = ndim"
      using "1.prems"(4) d by simp
    from "1.hyps" [OF True b rest c1 "1.prems"(3) this] T1
    have "\<forall>node\<in>set (drop (Suc i) nodes). node_defined ndim fs (dimensions T) node" by simp
    with node_body_defined [OF wf "1.prems"(2) b] d show ?thesis by simp
  qed
qed



text \<open>
  What the scratch array holds when a loop starts does not matter to the outcome, the error
  or the tensor: the copy loop overwrites the first \<open>dim\<close> entries and the component loop the
  last one before the array is read.
\<close>

lemma copy_loop_overwrites:
  assumes "length c = Suc ndim" "length c' = Suc ndim" "k \<le> ndim" "take k c = take k c'"
  shows "take ndim (copy_loop ndim node k c) = take ndim (copy_loop ndim node k c') \<and>
         length (copy_loop ndim node k c) = Suc ndim \<and>
         length (copy_loop ndim node k c') = Suc ndim"
  using assms
proof (induction ndim node k c arbitrary: c' rule: copy_loop.induct)
  case (1 ndim node k c)
  show ?case
  proof (cases "k < ndim")
    case True
    let ?x = "coords node ! k"
    have "take (Suc k) (c[k := ?x]) = take (Suc k) (c'[k := ?x])"
      using "1.prems" True by (simp add: take_Suc_conv_app_nth)
    from "1.IH" [OF True, of "c'[k := ?x]"] this "1.prems" True
    show ?thesis
      by (simp add: copy_loop.simps [of ndim node k])
  next
    case False
    with "1.prems" have "k = ndim" by simp
    with "1.prems" show ?thesis
      by (simp add: copy_loop.simps [of ndim node ndim])
  qed
qed

lemma component_loop_scratch:
  assumes "length c = Suc ndim" "length c' = Suc ndim" "take ndim c = take ndim c'"
  shows "map_sum id snd (component_loop ndim fs t node j (c, T)) =
         map_sum id snd (component_loop ndim fs t node j (c', T))"
proof (cases "j < ndim")
  case False
  then show ?thesis
    by (simp add: component_loop.simps [of ndim fs t node j])
next
  case True
  have "c = take ndim c @ [c ! ndim]" "c' = take ndim c' @ [c' ! ndim]"
    using assms(1,2) by (simp_all add: take_Suc_conv_app_nth [symmetric])
  then have "c[ndim := int j] = take ndim c @ [int j]" "c'[ndim := int j] = take ndim c' @ [int j]"
    using assms(1,2) by (metis length_take list_update_length min.absorb2 le_add2 plus_1_eq_Suc)+
  with assms(3) have "c[ndim := int j] = c'[ndim := int j]" by simp
  with True show ?thesis
    by (simp add: component_loop.simps [of ndim fs t node j] Let_def)
qed

lemma update_node_scratch:
  assumes "length c = Suc ndim" "length c' = Suc ndim"
  shows "map_sum id snd (update_node ndim fs t node (c, T)) =
         map_sum id snd (update_node ndim fs t node (c', T))"
  using copy_loop_overwrites [OF assms, of 0 node]
  by (simp add: component_loop_scratch)

lemma node_loop_outcome_scratch:
  assumes "length c = Suc ndim" "length c' = Suc ndim"
  shows "map_sum id snd (node_loop ndim fs t nodes n i (c, T)) =
         map_sum id snd (node_loop ndim fs t nodes n i (c', T)) \<and>
         (\<forall>c1 T1. node_loop ndim fs t nodes n i (c, T) = Inr (c1, T1) \<longrightarrow> length c1 = Suc ndim)"
  using assms
proof (induction ndim fs t nodes n i "(c, T)" arbitrary: c c' T rule: node_loop.induct)
  case (1 ndim fs t nodes n i c T)
  show ?case
  proof (cases "i < n")
    case False
    with "1.prems" show ?thesis
      by (simp add: node_loop.simps [of ndim fs t nodes n i])
  next
    case True
    note same = update_node_scratch [OF "1.prems", of fs t "nodes ! i" T]
    show ?thesis
    proof (cases "update_node ndim fs t (nodes ! i) (c, T)")
      case (Inl e)
      with same have "update_node ndim fs t (nodes ! i) (c', T) = Inl e"
        by (cases "update_node ndim fs t (nodes ! i) (c', T)") simp_all
      with Inl True show ?thesis
        by (simp add: node_loop.simps [of ndim fs t nodes n i])
    next
      case (Inr r)
      obtain c1 T1 where r: "r = (c1, T1)" by (cases r)
      from same Inr r obtain c1' where r': "update_node ndim fs t (nodes ! i) (c', T) = Inr (c1', T1)"
        by (cases "update_node ndim fs t (nodes ! i) (c', T)") auto
      have l: "length c1 = Suc ndim" "length c1' = Suc ndim"
        using Inr r r' component_loop_dimensions [of ndim fs t "nodes ! i" 0]
          copy_loop_overwrites [OF "1.prems" le0, of "nodes ! i"]
        by (simp_all del: map_sum.simps)
      from "1.hyps" [OF True Inr [unfolded r] l] Inr r r' True show ?thesis
        by (simp add: node_loop.simps [of ndim fs t nodes n i])
    qed
  qed
qed

section \<open>The call, characterised\<close>

lemma update_nodes_Inr:
  assumes "well_formed ndim s" "update_defined ndim s"
  shows "update_nodes ndim t s =
           Inr (s\<lparr>velocity_tensor :=
                  (velocity_tensor s)\<lparr>cell := store (all_writes ndim t s) (cell (velocity_tensor s))\<rparr>\<rparr>)"
proof -
  let ?P = "initializer s" and ?T = "velocity_tensor s"
  let ?Win = "concat (map (node_writes ndim (inlet_update_function ?P) t) (inlet_nodes ?P))"
  let ?Wout = "concat (map (node_writes ndim (outlet_update_function ?P) t) (outlet_nodes ?P))"
  let ?T1 = "?T\<lparr>cell := store ?Win (cell ?T)\<rparr>"
  have "\<forall>node\<in>set (drop 0 (inlet_nodes ?P)).
          length (coords node) = ndim \<and>
          node_defined ndim (inlet_update_function ?P) (dimensions ?T) node"
    using assms by (simp add: well_formed_def update_defined_def)
  from node_loop_Inr [OF _ refl this, of "replicate (Suc ndim) 0" t]
  obtain c1 where c1: "length c1 = Suc ndim"
    "node_loop ndim (inlet_update_function ?P) t (inlet_nodes ?P) (length (inlet_nodes ?P)) 0
       (replicate (Suc ndim) 0, ?T) = Inr (c1, ?T1)"
    by auto
  have "\<forall>node\<in>set (drop 0 (outlet_nodes ?P)).
          length (coords node) = ndim \<and>
          node_defined ndim (outlet_update_function ?P) (dimensions ?T1) node"
    using assms by (simp add: well_formed_def update_defined_def)
  from node_loop_Inr [OF c1(1) refl this, of t]
  obtain c2 where c2:
    "node_loop ndim (outlet_update_function ?P) t (outlet_nodes ?P) (length (outlet_nodes ?P)) 0
       (c1, ?T1) = Inr (c2, ?T1\<lparr>cell := store ?Wout (cell ?T1)\<rparr>)"
    by auto
  show ?thesis
    using c1(2) c2 by (simp add: update_nodes_def all_writes_def)
qed

lemma update_nodes_defined:
  assumes "well_formed ndim s" "update_nodes ndim t s = Inr s'"
  shows "update_defined ndim s"
proof -
  let ?P = "initializer s" and ?T = "velocity_tensor s"
  from assms(2) obtain c1 T1 c2 T2 where
    l1: "node_loop ndim (inlet_update_function ?P) t (inlet_nodes ?P) (length (inlet_nodes ?P)) 0
           (replicate (Suc ndim) 0, ?T) = Inr (c1, T1)"
    and l2: "node_loop ndim (outlet_update_function ?P) t (outlet_nodes ?P)
           (length (outlet_nodes ?P)) 0 (c1, T1) = Inr (c2, T2)"
    by (auto simp: update_nodes_def Let_def split: sum.splits)
  have wi: "\<forall>node\<in>set (drop 0 (inlet_nodes ?P)). length (coords node) = ndim"
    and wo: "\<forall>node\<in>set (drop 0 (outlet_nodes ?P)). length (coords node) = ndim"
    using assms(1) by (simp_all add: well_formed_def)
  have d1: "\<forall>node\<in>set (inlet_nodes ?P).
              node_defined ndim (inlet_update_function ?P) (dimensions ?T) node"
    using node_loop_defined [OF l1 _ refl wi] by simp
  then have "\<forall>node\<in>set (drop 0 (inlet_nodes ?P)).
          length (coords node) = ndim \<and>
          node_defined ndim (inlet_update_function ?P) (dimensions ?T) node"
    using wi by simp
  from node_loop_Inr [OF _ refl this, of "replicate (Suc ndim) 0" t] l1
  have "length c1 = Suc ndim" "dimensions T1 = dimensions ?T" by auto
  with node_loop_defined [OF l2 _ refl wo] d1
  show ?thesis by (simp add: update_defined_def)
qed

lemma update_nodes_zero_scratch:
  "update_nodes ndim t s = update_nodes_scratch (replicate (Suc ndim) 0) ndim t s"
  by (simp add: update_nodes_def update_nodes_scratch_def)

lemma update_nodes_scratch_outcome:
  assumes "initializer s1 = initializer s2" "velocity_tensor s1 = velocity_tensor s2"
    and "length c1 = Suc ndim" "length c2 = Suc ndim"
  shows "map_sum id velocity_tensor (update_nodes_scratch c1 ndim t s1) =
         map_sum id velocity_tensor (update_nodes_scratch c2 ndim t s2)"
proof -
  let ?P = "initializer s2" and ?T = "velocity_tensor s2"
  let ?inlet = "\<lambda>c. node_loop ndim (inlet_update_function ?P) t (inlet_nodes ?P)
                  (length (inlet_nodes ?P)) 0 (c, ?T)"
  let ?outlet = "\<lambda>s. node_loop ndim (outlet_update_function ?P) t (outlet_nodes ?P)
                  (length (outlet_nodes ?P)) 0 s"
  note inlet = node_loop_outcome_scratch [OF assms(3,4), of "inlet_update_function ?P" t
      "inlet_nodes ?P" "length (inlet_nodes ?P)" 0 ?T]
  show ?thesis
  proof (cases "?inlet c1")
    case (Inl e)
    with inlet have "?inlet c2 = Inl e"
      by (cases "?inlet c2") simp_all
    with Inl assms(1,2) show ?thesis
      by (simp add: update_nodes_scratch_def)
  next
    case (Inr r)
    obtain ca T1 where r: "r = (ca, T1)" by (cases r)
    from inlet Inr r obtain cb where r2: "?inlet c2 = Inr (cb, T1)"
      by (cases "?inlet c2") auto
    from inlet Inr r have la: "length ca = Suc ndim" by simp
    from node_loop_outcome_scratch [OF assms(4,3), of "inlet_update_function ?P" t
      "inlet_nodes ?P" "length (inlet_nodes ?P)" 0 ?T] r2
    have lb: "length cb = Suc ndim" by simp
    from node_loop_outcome_scratch [OF la lb, of "outlet_update_function ?P" t
      "outlet_nodes ?P" "length (outlet_nodes ?P)" 0 T1]
    have outlet: "map_sum id snd (?outlet (ca, T1)) = map_sum id snd (?outlet (cb, T1))"
      by simp
    show ?thesis
    proof (cases "?outlet (ca, T1)")
      case (Inl e)
      with outlet have "?outlet (cb, T1) = Inl e"
        by (cases "?outlet (cb, T1)") simp_all
      with Inl Inr r r2 assms(1,2) show ?thesis
        by (simp add: update_nodes_scratch_def)
    next
      case Inr2: (Inr r')
      obtain cc T2 where r': "r' = (cc, T2)" by (cases r')
      from outlet Inr2 r' obtain cd where "?outlet (cb, T1) = Inr (cd, T2)"
        by (cases "?outlet (cb, T1)") auto
      with Inr2 r' Inr r r2 assms(1,2) show ?thesis
        by (simp add: update_nodes_scratch_def)
    qed
  qed
qed

section \<open>Reading a cell after a list of stores\<close>

lemma store_components:
  "store (map (\<lambda>j. (c @ [int j], h j)) js) f idx =
     (if idx \<in> (\<lambda>j. c @ [int j]) ` set js then h (nat (last idx)) else f idx)"
proof (induction js arbitrary: f)
  case Nil
  show ?case by simp
next
  case (Cons a js)
  show ?case by (auto simp: Cons.IH)
qed

lemma store_node_writes:
  "store (node_writes ndim fs t node) f idx =
     (if idx \<in> (\<lambda>j. coords node @ [int j]) ` {..<ndim} then the (fs ! nat (last idx)) t node
      else f idx)"
  by (simp add: node_writes_def store_components lessThan_atLeast0)

lemma store_nodes_other:
  assumes "\<forall>node\<in>set nodes. take ndim idx \<noteq> coords node"
    and "\<forall>node\<in>set nodes. length (coords node) = ndim"
  shows "store (concat (map (node_writes ndim fs t) nodes)) f idx = f idx"
  using assms
proof (induction nodes arbitrary: f)
  case Nil
  show ?case by simp
next
  case (Cons node nodes)
  have "idx \<notin> (\<lambda>j. coords node @ [int j]) ` {..<ndim}"
    using Cons.prems by auto
  then show ?case
    using Cons by (simp add: store_node_writes)
qed

lemma store_nodes_last:
  assumes "j < ndim" "\<forall>node'\<in>set nodes'. coords node' \<noteq> coords node"
    and "\<forall>node'\<in>set nodes'. length (coords node') = ndim" "length (coords node) = ndim"
  shows "store (concat (map (node_writes ndim fs t) (nodes @ node # nodes'))) f (coords node @ [int j])
           = the (fs ! j) t node"
proof -
  have "take ndim (coords node @ [int j]) = coords node"
    using assms(4) by simp
  with assms(2) have "\<forall>node'\<in>set nodes'. take ndim (coords node @ [int j]) \<noteq> coords node'"
    by metis
  note other = store_nodes_other [OF this assms(3), of fs t]
  have "store (concat (map (node_writes ndim fs t) (nodes @ node # nodes'))) f (coords node @ [int j])
          = store (node_writes ndim fs t node)
              (store (concat (map (node_writes ndim fs t) nodes)) f) (coords node @ [int j])"
    by (simp add: other)
  also have "\<dots> = the (fs ! j) t node"
    using assms(1) by (simp add: store_node_writes)
  finally show ?thesis .
qed


section \<open>What a call leaves alone\<close>

lemma update_nodes_cells:
  assumes "well_formed ndim s" "update_nodes ndim t s = Inr s'"
  shows "velocity_tensor s' =
           (velocity_tensor s)\<lparr>cell := store (all_writes ndim t s) (cell (velocity_tensor s))\<rparr>"
  using update_nodes_Inr [OF assms(1) update_nodes_defined [OF assms], of t] assms(2) by auto

lemma update_nodes_untouched:
  assumes "well_formed ndim s" "update_nodes ndim t s = Inr s'"
    and "\<forall>node \<in> set (inlet_nodes (initializer s)) \<union> set (outlet_nodes (initializer s)).
           take ndim idx \<noteq> coords node"
  shows "cell (velocity_tensor s') idx = cell (velocity_tensor s) idx"
proof -
  let ?P = "initializer s"
  have wi: "\<forall>node\<in>set (inlet_nodes ?P). length (coords node) = ndim"
    and wo: "\<forall>node\<in>set (outlet_nodes ?P). length (coords node) = ndim"
    using assms(1) by (simp_all add: well_formed_def)
  have ni: "\<forall>node\<in>set (inlet_nodes ?P). take ndim idx \<noteq> coords node"
    and no: "\<forall>node\<in>set (outlet_nodes ?P). take ndim idx \<noteq> coords node"
    using assms(3) by simp_all
  show ?thesis
    unfolding update_nodes_cells [OF assms(1,2)]
    by (simp add: all_writes_def store_nodes_other [OF ni wi] store_nodes_other [OF no wo])
qed

lemma update_nodes_dimensions:
  assumes "well_formed ndim s" "update_nodes ndim t s = Inr s'"
  shows "dimensions (velocity_tensor s') = dimensions (velocity_tensor s)"
  unfolding update_nodes_cells [OF assms] by simp

lemma written_cells_eq:
  assumes "length (coords node) = ndim"
  shows "written_cells ndim node = (\<lambda>j. coords node @ [int j]) ` {..<ndim}"
  using assms by (simp add: written_cells_def copy_loop_index)

lemma update_node_cells:
  assumes "length (coords node) = ndim" "length c = Suc ndim"
    and "update_node ndim fs t node (c, T) = Inr (c', T')"
  shows "cell T' = store (node_writes ndim fs t node) (cell T)"
proof -
  from node_body_defined [OF assms] have "node_defined ndim fs (dimensions T) node" .
  from node_body_Inr [OF assms(1,2) this, of t] assms(3) show ?thesis by auto
qed

lemma update_node_untouched:
  assumes "length (coords node) = ndim" "length c = Suc ndim"
    and "update_node ndim fs t node (c, T) = Inr (c', T')"
    and "indices \<notin> written_cells ndim node"
  shows "cell T' indices = cell T indices"
  using assms(4)
  by (simp add: update_node_cells [OF assms(1-3)] store_node_writes written_cells_eq [OF assms(1)])

section \<open>The concrete configurations, evaluated\<close>

lemma all_less_2: "(\<forall>j<2::nat. P j) \<longleftrightarrow> P 0 \<and> P 1"
  by (auto simp: less_2_cases_iff)

lemma cavity_well_formed: "well_formed 2 cavity"
  by (simp add: well_formed_def cavity_def)

lemma cavity_update_defined: "update_defined 2 cavity"
  by (simp add: update_defined_def node_defined_def all_less_2 cavity_def lattice_def checkIndexRange_def)

lemma cavity_returns: "\<exists>s'. update_nodes 2 t cavity = Inr s'"
  using update_nodes_Inr [OF cavity_well_formed cavity_update_defined] by blast

lemma overlap_well_formed: "well_formed 2 overlap"
  by (simp add: well_formed_def overlap_def)

lemma overlap_update_defined: "update_defined 2 overlap"
  by (simp add: update_defined_def node_defined_def all_less_2 overlap_def lattice_def checkIndexRange_def)

lemma upt_2: "[0..<2] = [0, 1]"
  by (simp add: upt_rec)

lemma overlap_update: "update_nodes 2 t overlap = Inr overlap_after"
  unfolding update_nodes_Inr [OF overlap_well_formed overlap_update_defined]
  by (simp add: overlap_after_def overlap_def all_writes_def node_writes_def upt_2)

lemma update_node_example:
  "update_node 2 [Some (\<lambda>t p. 0.2), Some (\<lambda>t p. 0)] (1::real) \<lparr>coords = [0, 1]\<rparr> ([0, 0, 0], lattice) =
     Inr ([0, 1, 1], lattice\<lparr>cell := (cell lattice)([0, 1, 0] := 0.2, [0, 1, 1] := (0::real))\<rparr>)"
  by (simp add: copy_loop.simps component_loop.simps assign_def checkIndexRange_def lattice_def Let_def)

lemma written_cells_example:
  "written_cells 2 \<lparr>coords = [0, 2]\<rparr> = {[0, 2, 0], [0, 2, 1]}"
  by (auto simp: written_cells_eq less_2_cases_iff)

section \<open>The execution variants compared\<close>

lemma OpenACC_update_nodes_eq: "OpenACC_update_nodes ndim t s = update_nodes ndim t s"
  by (simp add: OpenACC_update_nodes_def update_nodes_def)

lemma STDExec_step:
  assumes "i < length pcs" "body_step ndim fs t (nodes ! i) (pcs ! i) shared = Inr (pc', shared')"
  shows "STDExec_for_each ndim fs t nodes (i # schedule) pcs shared =
           STDExec_for_each ndim fs t nodes schedule (pcs[i := pc']) shared'"
  using assms by simp

lemma STDExec_step_fails:
  assumes "i < length pcs" "body_step ndim fs t (nodes ! i) (pcs ! i) shared = Inl e"
  shows "STDExec_for_each ndim fs t nodes (i # schedule) pcs shared = Inl e"
  using assms by simp

declare STDExec_for_each.simps(2) [simp del]

lemma STDExec_copy_steps:
  assumes "i < length pcs" "pcs ! i = Copy k" "k \<le> ndim"
  shows "STDExec_for_each ndim fs t nodes (replicate (ndim - k) i @ rest) pcs (c, v) =
           STDExec_for_each ndim fs t nodes rest (pcs[i := Copy ndim])
             (copy_loop ndim (nodes ! i) k c, v)"
  using assms
proof (induction "ndim - k" arbitrary: k pcs c)
  case 0
  then have k: "k = ndim" by simp
  with "0.prems" have "pcs[i := Copy ndim] = pcs"
    by (metis list_update_id)
  with k "0.hyps" show ?case
    by (simp add: copy_loop.simps [of ndim _ ndim])
next
  case (Suc m)
  then have lt: "k < ndim" and m: "m = ndim - Suc k" by simp_all
  let ?c = "c[k := coords (nodes ! i) ! k]"
  have "replicate (ndim - k) i @ rest = i # replicate (ndim - Suc k) i @ rest"
    using Suc.hyps(2) [symmetric] m by simp
  moreover have "body_step ndim fs t (nodes ! i) (pcs ! i) (c, v) = Inr (Copy (Suc k), ?c, v)"
    using Suc.prems lt by simp
  ultimately have "STDExec_for_each ndim fs t nodes (replicate (ndim - k) i @ rest) pcs (c, v) =
          STDExec_for_each ndim fs t nodes (replicate (ndim - Suc k) i @ rest)
            (pcs[i := Copy (Suc k)]) (?c, v)"
    using STDExec_step [OF Suc.prems(1)] by simp
  also have "\<dots> = STDExec_for_each ndim fs t nodes rest (pcs[i := Copy (Suc k), i := Copy ndim])
             (copy_loop ndim (nodes ! i) (Suc k) ?c, v)"
    using Suc.prems lt by (intro Suc.hyps(1) [OF m]) simp_all
  also have "copy_loop ndim (nodes ! i) (Suc k) ?c = copy_loop ndim (nodes ! i) k c"
    using lt by (simp add: copy_loop.simps [of ndim _ k])
  finally show ?case by simp
qed

lemma STDExec_component_steps:
  assumes "i < length pcs" "pcs ! i = SetIndex j" "j \<le> ndim"
  shows "STDExec_for_each ndim fs t nodes (replicate (2 * (ndim - j) + 1) i @ rest) pcs (c, v) =
           (case component_loop ndim fs t (nodes ! i) j (c, v) of
              Inl e \<Rightarrow> Inl e
            | Inr shared \<Rightarrow> STDExec_for_each ndim fs t nodes rest (pcs[i := Finished]) shared)"
  using assms
proof (induction "ndim - j" arbitrary: j pcs c v)
  case 0
  then have j: "j = ndim" by simp
  have "body_step ndim fs t (nodes ! i) (pcs ! i) (c, v) = Inr (Finished, c, v)"
    using "0.prems" j by simp
  from STDExec_step [OF "0.prems"(1) this] j show ?case
    by (simp add: component_loop.simps [of ndim _ _ _ ndim])
next
  case (Suc m)
  then have lt: "j < ndim" and m: "m = ndim - Suc j" by simp_all
  let ?c = "c[ndim := int j]"
  let ?pcs = "pcs[i := Store j]"
  have r: "replicate (2 * (ndim - j) + 1) i @ rest =
             i # i # replicate (2 * (ndim - Suc j) + 1) i @ rest"
    using Suc.hyps(2) [symmetric] m by simp
  have "body_step ndim fs t (nodes ! i) (pcs ! i) (c, v) = Inr (Store j, ?c, v)"
    using Suc.prems lt by simp
  from STDExec_step [OF Suc.prems(1) this]
  have first: "STDExec_for_each ndim fs t nodes (replicate (2 * (ndim - j) + 1) i @ rest) pcs (c, v) =
          STDExec_for_each ndim fs t nodes (i # replicate (2 * (ndim - Suc j) + 1) i @ rest) ?pcs (?c, v)"
    unfolding r .
  have i: "i < length ?pcs" and s: "?pcs ! i = Store j"
    using Suc.prems(1) by simp_all
  show ?case
  proof (cases "fs ! j")
    case None
    then have "body_step ndim fs t (nodes ! i) (?pcs ! i) (?c, v) = Inl BadFunctionCall"
      using s by simp
    from STDExec_step_fails [OF i this] first None lt show ?thesis
      by (simp add: component_loop.simps [of ndim _ _ _ j] Let_def)
  next
    case (Some f)
    show ?thesis
    proof (cases "assign v ?c (f t (nodes ! i))")
      case (Inl e)
      then have "body_step ndim fs t (nodes ! i) (?pcs ! i) (?c, v) = Inl e"
        using s Some by simp
      from STDExec_step_fails [OF i this] first Some Inl lt show ?thesis
        by (simp add: component_loop.simps [of ndim _ _ _ j] Let_def)
    next
      case (Inr v')
      then have "body_step ndim fs t (nodes ! i) (?pcs ! i) (?c, v) = Inr (SetIndex (Suc j), ?c, v')"
        using s Some by simp
      from STDExec_step [OF i this] first
      have "STDExec_for_each ndim fs t nodes (replicate (2 * (ndim - j) + 1) i @ rest) pcs (c, v) =
              STDExec_for_each ndim fs t nodes (replicate (2 * (ndim - Suc j) + 1) i @ rest)
                (pcs[i := SetIndex (Suc j)]) (?c, v')"
        by simp
      also have "\<dots> = (case component_loop ndim fs t (nodes ! i) (Suc j) (?c, v') of
              Inl e \<Rightarrow> Inl e
            | Inr shared \<Rightarrow> STDExec_for_each ndim fs t nodes rest
                (pcs[i := SetIndex (Suc j), i := Finished]) shared)"
        using Suc.prems lt by (intro Suc.hyps(1) [OF m]) simp_all
      also have "component_loop ndim fs t (nodes ! i) (Suc j) (?c, v') =
                   component_loop ndim fs t (nodes ! i) j (c, v)"
        using lt Some Inr by (simp add: component_loop.simps [of ndim _ _ _ j] Let_def)
      finally show ?thesis unfolding list_update_overwrite .
    qed
  qed
qed

lemma STDExec_body_steps:
  assumes "i < length pcs" "pcs ! i = Copy 0"
  shows "STDExec_for_each ndim fs t nodes (replicate (3 * ndim + 2) i @ rest) pcs (c, v) =
           (case update_node ndim fs t (nodes ! i) (c, v) of
              Inl e \<Rightarrow> Inl e
            | Inr shared \<Rightarrow> STDExec_for_each ndim fs t nodes rest (pcs[i := Finished]) shared)"
proof -
  let ?c = "copy_loop ndim (nodes ! i) 0 c"
  let ?pcs = "pcs[i := Copy ndim]"
  have "3 * ndim + 2 = ndim + Suc (2 * ndim + 1)"
    by simp
  then have "replicate (3 * ndim + 2) i = replicate ndim i @ replicate (Suc (2 * ndim + 1)) i"
    by (simp only: replicate_add)
  then have r: "replicate (3 * ndim + 2) i @ rest =
          replicate (ndim - 0) i @ (i # replicate (2 * (ndim - 0) + 1) i @ rest)"
    by simp
  have "STDExec_for_each ndim fs t nodes (replicate (3 * ndim + 2) i @ rest) pcs (c, v) =
          STDExec_for_each ndim fs t nodes (i # replicate (2 * (ndim - 0) + 1) i @ rest) ?pcs (?c, v)"
    unfolding r by (rule STDExec_copy_steps [OF assms]) simp
  also have "\<dots> = STDExec_for_each ndim fs t nodes (replicate (2 * (ndim - 0) + 1) i @ rest)
            (?pcs[i := SetIndex 0]) (?c, v)"
    using assms(1) by (intro STDExec_step) simp_all
  also have "\<dots> = (case component_loop ndim fs t (nodes ! i) 0 (?c, v) of
              Inl e \<Rightarrow> Inl e
            | Inr shared \<Rightarrow> STDExec_for_each ndim fs t nodes rest
                (?pcs[i := SetIndex 0, i := Finished]) shared)"
    using assms(1) by (intro STDExec_component_steps) simp_all
  finally show ?thesis unfolding list_update_overwrite update_node.simps .
qed


lemma STDExec_sequential_loop:
  assumes "length pcs = n" "i \<le> n" "\<forall>i'. i \<le> i' \<and> i' < n \<longrightarrow> pcs ! i' = Copy 0"
  shows "STDExec_for_each ndim fs t nodes (concat (map (replicate (3 * ndim + 2)) [i..<n])) pcs (c, v) =
           (case node_loop ndim fs t nodes n i (c, v) of
              Inl e \<Rightarrow> Inl e
            | Inr shared \<Rightarrow> Inr (take i pcs @ replicate (n - i) Finished, shared))"
  using assms
proof (induction "n - i" arbitrary: i pcs c v)
  case 0
  then have "n = i" by simp
  moreover have "node_loop ndim fs t nodes i i (c, v) = Inr (c, v)"
    by (simp add: node_loop.simps [of ndim fs t nodes i i])
  ultimately show ?case
    using "0.prems" by simp
next
  case (Suc m)
  then have lt: "i < n" and m: "m = n - Suc i" by simp_all
  let ?pcs = "pcs[i := Finished]"
  have i: "i < length pcs" and p: "pcs ! i = Copy 0"
    using Suc.prems lt by simp_all
  have sch: "concat (map (replicate (3 * ndim + 2)) [i..<n]) =
          replicate (3 * ndim + 2) i @ concat (map (replicate (3 * ndim + 2)) [Suc i..<n])"
    using lt by (simp add: upt_conv_Cons)
  have first: "STDExec_for_each ndim fs t nodes
            (concat (map (replicate (3 * ndim + 2)) [i..<n])) pcs (c, v) =
          (case update_node ndim fs t (nodes ! i) (c, v) of
              Inl e \<Rightarrow> Inl e
            | Inr shared \<Rightarrow> STDExec_for_each ndim fs t nodes
                (concat (map (replicate (3 * ndim + 2)) [Suc i..<n])) ?pcs shared)"
    unfolding sch by (rule STDExec_body_steps [OF i p])
  have pcs': "take (Suc i) ?pcs @ replicate (n - Suc i) Finished = take i pcs @ replicate (n - i) Finished"
  proof -
    have "take (Suc i) ?pcs = take i pcs @ [Finished]"
      using i by (simp add: take_Suc_conv_app_nth)
    moreover have "replicate (n - i) Finished = Finished # replicate (n - Suc i) Finished"
      using lt by (simp add: Suc_diff_Suc replicate_Suc [symmetric] del: replicate_Suc)
    ultimately show ?thesis by simp
  qed
  show ?case
  proof (cases "update_node ndim fs t (nodes ! i) (c, v)")
    case (Inl e)
    with first lt show ?thesis
      by (simp add: node_loop.simps [of ndim fs t nodes n i])
  next
    case (Inr shared)
    obtain c' v' where shared: "shared = (c', v')" by (cases shared)
    have "STDExec_for_each ndim fs t nodes
            (concat (map (replicate (3 * ndim + 2)) [Suc i..<n])) ?pcs (c', v') =
          (case node_loop ndim fs t nodes n (Suc i) (c', v') of
              Inl e \<Rightarrow> Inl e
            | Inr shared \<Rightarrow> Inr (take (Suc i) ?pcs @ replicate (n - Suc i) Finished, shared))"
      using Suc.prems lt by (intro Suc.hyps(1) [OF m]) simp_all
    with first Inr shared lt show ?thesis
      unfolding pcs' by (simp add: node_loop.simps [of ndim fs t nodes n i])
  qed
qed

lemma STDExec_sequential_for_each:
  "STDExec_for_each ndim fs t nodes (sequential_schedule ndim (length nodes))
     (replicate (length nodes) (Copy 0)) (c, v) =
   (case node_loop ndim fs t nodes (length nodes) 0 (c, v) of
      Inl e \<Rightarrow> Inl e
    | Inr shared \<Rightarrow> Inr (replicate (length nodes) Finished, shared))"
  using STDExec_sequential_loop [of "replicate (length nodes) (Copy 0)" "length nodes" 0 ndim fs t nodes c v]
  by (simp add: sequential_schedule_def cong: sum.case_cong)

text \<open>
  Under the schedule that runs the bodies one after the other, the data-parallel variant does
  what the sequential initializer does, errors included: the step model of a body executes
  the statements of the two inner loops.
\<close>

theorem STDExec_sequential:
  "STDExec_update_nodes ndim t
     (sequential_schedule ndim (length (inlet_nodes (initializer s))),
      sequential_schedule ndim (length (outlet_nodes (initializer s)))) s =
   Some (update_nodes ndim t s)"
  by (auto simp: STDExec_update_nodes_def update_nodes_def STDExec_sequential_for_each Let_def
      list_all_iff split: sum.splits)

lemma OMP_step_invariant:
  assumes inv: "OMP_invariant ndim fs t nodes v0 bodies v"
    and wf: "\<forall>node\<in>set nodes. length (coords node) = ndim"
    and dist: "distinct (map coords nodes)"
    and df: "\<forall>node\<in>set nodes. node_defined ndim fs (dimensions v0) node"
    and i: "i < length nodes"
  shows "\<exists>pc' c' v'.
           body_step ndim fs t (nodes ! i) (fst (bodies ! i)) (snd (bodies ! i), v) = Inr (pc', c', v') \<and>
           OMP_invariant ndim fs t nodes v0 (bodies[i := (pc', c')]) v'"
proof -
  obtain pc c where b: "bodies ! i = (pc, c)" by (cases "bodies ! i")
  let ?node = "nodes ! i"
  from inv have len: "length bodies = length nodes"
    and cons: "\<And>i'. i' < length nodes \<Longrightarrow> body_consistent ndim (nodes ! i') (bodies ! i')"
    and dims: "dimensions v = dimensions v0"
    and stored: "\<And>i' j. i' < length nodes \<Longrightarrow> j < stores_done ndim (fst (bodies ! i')) \<Longrightarrow>
        cell v (coords (nodes ! i') @ [int j]) = the (fs ! j) t (nodes ! i')"
    and rest: "\<And>indices. (\<forall>i'<length nodes. \<forall>j<stores_done ndim (fst (bodies ! i')).
           indices \<noteq> coords (nodes ! i') @ [int j]) \<Longrightarrow> cell v indices = cell v0 indices"
    by (simp_all add: OMP_invariant_def)
  from wf i have n: "length (coords ?node) = ndim" by simp
  from cons [OF i] b have ci: "body_consistent ndim ?node (pc, c)" by simp
  have same: "OMP_invariant ndim fs t nodes v0 (bodies[i := (pc', c')]) v"
    if "body_consistent ndim ?node (pc', c')" "stores_done ndim pc' = stores_done ndim pc"
    for pc' c'
    unfolding OMP_invariant_def
  proof (intro conjI allI impI)
    show "length (bodies[i := (pc', c')]) = length nodes" using len by simp
    show "dimensions v = dimensions v0" by (rule dims)
  next
    fix i' assume "i' < length nodes"
    then show "body_consistent ndim (nodes ! i') (bodies[i := (pc', c')] ! i')"
      using that(1) cons len by (cases "i' = i") simp_all
  next
    fix i' j assume "i' < length nodes" "j < stores_done ndim (fst (bodies[i := (pc', c')] ! i'))"
    then show "cell v (coords (nodes ! i') @ [int j]) = the (fs ! j) t (nodes ! i')"
      using that(2) stored [of i' j] len b by (cases "i' = i") simp_all
  next
    fix indices
    assume a: "\<forall>i'<length nodes. \<forall>j<stores_done ndim (fst (bodies[i := (pc', c')] ! i')).
           indices \<noteq> coords (nodes ! i') @ [int j]"
    have "\<forall>i'<length nodes. \<forall>j<stores_done ndim (fst (bodies ! i')).
           indices \<noteq> coords (nodes ! i') @ [int j]"
    proof (intro allI impI)
      fix i' j assume "i' < length nodes" "j < stores_done ndim (fst (bodies ! i'))"
      then show "indices \<noteq> coords (nodes ! i') @ [int j]"
        using a [rule_format, of i' j] that(2) len b by (cases "i' = i") simp_all
    qed
    then show "cell v indices = cell v0 indices" by (rule rest)
  qed
  show ?thesis
  proof (cases pc)
    case (Copy k)
    with ci have c: "length c = Suc ndim" "k \<le> ndim" "take k c = take k (coords ?node)" by simp_all
    show ?thesis
    proof (cases "k < ndim")
      case True
      have "take (Suc k) (c[k := coords ?node ! k]) = take (Suc k) (coords ?node)"
        using c True n by (simp add: take_Suc_conv_app_nth)
      with c True have "body_consistent ndim ?node (Copy (Suc k), c[k := coords ?node ! k])" by simp
      from same [OF this] Copy True b show ?thesis by simp
    next
      case False
      with c n have "body_consistent ndim ?node (SetIndex 0, c)" by simp
      from same [OF this] Copy False b show ?thesis by simp
    qed
  next
    case (SetIndex j)
    with ci have c: "length c = Suc ndim" "j \<le> ndim" "take ndim c = coords ?node" by simp_all
    show ?thesis
    proof (cases "j < ndim")
      case True
      have "c = take ndim c @ drop ndim c" by simp
      moreover have "drop ndim c = [c ! ndim]"
        using c(1) Cons_nth_drop_Suc [of ndim c] by simp
      ultimately have "c = coords ?node @ [c ! ndim]" using c(3) by simp
      then have "c[ndim := int j] = coords ?node @ [int j]"
        using n by (metis length_append_singleton list_update_length)
      with True have "body_consistent ndim ?node (Store j, c[ndim := int j])" by simp
      from same [OF this] SetIndex True b show ?thesis by simp
    next
      case False
      with c have "j = ndim" by simp
      moreover have "body_consistent ndim ?node (Finished, c)" by simp
      from same [OF this] SetIndex False b \<open>j = ndim\<close> show ?thesis by simp
    qed
  next
    case Finished
    have "body_consistent ndim ?node (Finished, c)" by simp
    from same [OF this] Finished b show ?thesis by simp
  next
    case (Store j)
    with ci have j: "j < ndim" and c: "c = coords ?node @ [int j]" by simp_all
    from i have "?node \<in> set nodes" by simp
    with df have "node_defined ndim fs (dimensions v0) ?node" by blast
    with j have "fs ! j \<noteq> None" and r: "checkIndexRange (dimensions v0) (coords ?node @ [int j])"
      by (simp_all add: node_defined_def)
    then obtain f where f: "fs ! j = Some f" by blast
    let ?v = "v\<lparr>cell := (cell v)(c := f t ?node)\<rparr>"
    have step: "body_step ndim fs t ?node (fst (bodies ! i)) (snd (bodies ! i), v) =
                  Inr (SetIndex (Suc j), c, ?v)"
      using b Store f r dims c by (simp add: assign_def)
    have other: "coords (nodes ! i') @ [int j'] \<noteq> c" if "i' < length nodes" "i' \<noteq> i \<or> j' \<noteq> j" for i' j'
    proof (cases "i' = i")
      case True
      with that c show ?thesis by simp
    next
      case False
      with dist that(1) i have "coords (nodes ! i') \<noteq> coords ?node"
        by (simp add: distinct_conv_nth)
      with c show ?thesis by simp
    qed
    have "OMP_invariant ndim fs t nodes v0 (bodies[i := (SetIndex (Suc j), c)]) ?v"
      unfolding OMP_invariant_def
    proof (intro conjI allI impI)
      show "length (bodies[i := (SetIndex (Suc j), c)]) = length nodes" using len by simp
      show "dimensions ?v = dimensions v0" using dims by simp
    next
      fix i' assume "i' < length nodes"
      then show "body_consistent ndim (nodes ! i') (bodies[i := (SetIndex (Suc j), c)] ! i')"
        using cons len j c n by (cases "i' = i") simp_all
    next
      fix i' j'
      assume i': "i' < length nodes"
        and j': "j' < stores_done ndim (fst (bodies[i := (SetIndex (Suc j), c)] ! i'))"
      show "cell ?v (coords (nodes ! i') @ [int j']) = the (fs ! j') t (nodes ! i')"
      proof (cases "i' = i \<and> j' = j")
        case True
        with c f show ?thesis by simp
      next
        case False
        then have ne: "coords (nodes ! i') @ [int j'] \<noteq> c"
          using other [OF i'] by blast
        have "j' < stores_done ndim (fst (bodies ! i'))"
          using j' False len i b Store by (cases "i' = i") simp_all
        from stored [OF i' this] ne show ?thesis by simp
      qed
    next
      fix indices
      assume a: "\<forall>i'<length nodes. \<forall>j'<stores_done ndim (fst (bodies[i := (SetIndex (Suc j), c)] ! i')).
           indices \<noteq> coords (nodes ! i') @ [int j']"
      from a [rule_format, of i j] i len c have ne: "indices \<noteq> c" by simp
      have "\<forall>i'<length nodes. \<forall>j'<stores_done ndim (fst (bodies ! i')).
           indices \<noteq> coords (nodes ! i') @ [int j']"
      proof (intro allI impI)
        fix i' j' assume i': "i' < length nodes" and j': "j' < stores_done ndim (fst (bodies ! i'))"
        have "j' < stores_done ndim (fst (bodies[i := (SetIndex (Suc j), c)] ! i'))"
          using j' len i b Store by (cases "i' = i") simp_all
        from a [rule_format, OF i' this] show "indices \<noteq> coords (nodes ! i') @ [int j']" .
      qed
      from rest [OF this] ne show "cell ?v indices = cell v0 indices" by simp
    qed
    with step show ?thesis by blast
  qed
qed


lemma OMP_run_invariant:
  assumes "OMP_invariant ndim fs t nodes v0 bodies v"
    and "\<forall>node\<in>set nodes. length (coords node) = ndim"
    and "distinct (map coords nodes)"
    and "\<forall>node\<in>set nodes. node_defined ndim fs (dimensions v0) node"
  shows "\<exists>bodies' v'. OMP_parallel_for ndim fs t nodes schedule bodies v = Inr (bodies', v') \<and>
           OMP_invariant ndim fs t nodes v0 bodies' v'"
  using assms(1)
proof (induction schedule arbitrary: bodies v)
  case Nil
  then show ?case by simp
next
  case (Cons i schedule)
  from Cons.prems have len: "length bodies = length nodes"
    by (simp add: OMP_invariant_def)
  show ?case
  proof (cases "i < length bodies")
    case False
    with Cons show ?thesis by simp
  next
    case True
    with len have "i < length nodes" by simp
    from OMP_step_invariant [OF Cons.prems assms(2-4) this]
    obtain pc' c' v' where
      step: "body_step ndim fs t (nodes ! i) (fst (bodies ! i)) (snd (bodies ! i), v) = Inr (pc', c', v')"
      and inv: "OMP_invariant ndim fs t nodes v0 (bodies[i := (pc', c')]) v'"
      by blast
    from Cons.IH [OF inv] True step show ?thesis by simp
  qed
qed

lemma store_nodes_frame:
  assumes "\<forall>node\<in>set nodes. indices \<notin> (\<lambda>j. coords node @ [int j]) ` {..<ndim}"
  shows "store (concat (map (node_writes ndim fs t) nodes)) f indices = f indices"
  using assms by (induction nodes arbitrary: f) (simp_all add: store_node_writes)

lemma OMP_finished:
  assumes inv: "OMP_invariant ndim fs t nodes v0 bodies v"
    and fin: "list_all (\<lambda>body. fst body = Finished) bodies"
    and wf: "\<forall>node\<in>set nodes. length (coords node) = ndim"
    and dist: "distinct (map coords nodes)"
  shows "v = v0\<lparr>cell := store (concat (map (node_writes ndim fs t) nodes)) (cell v0)\<rparr>"
proof -
  from inv have len: "length bodies = length nodes" and dims: "dimensions v = dimensions v0"
    by (simp_all add: OMP_invariant_def)
  have all: "stores_done ndim (fst (bodies ! i)) = ndim" if "i < length nodes" for i
    using fin that len by (simp add: list_all_length)
  have "cell v indices = store (concat (map (node_writes ndim fs t) nodes)) (cell v0) indices"
    for indices
  proof (cases "\<exists>i<length nodes. \<exists>j<ndim. indices = coords (nodes ! i) @ [int j]")
    case True
    then obtain i j where i: "i < length nodes" and j: "j < ndim"
      and indices: "indices = coords (nodes ! i) @ [int j]" by blast
    from inv i j all [OF i] have "cell v indices = the (fs ! j) t (nodes ! i)"
      unfolding indices by (simp add: OMP_invariant_def)
    moreover have "store (concat (map (node_writes ndim fs t) nodes)) (cell v0) indices =
                     the (fs ! j) t (nodes ! i)"
    proof -
      have split: "nodes = take i nodes @ nodes ! i # drop (Suc i) nodes"
        using i by (simp add: id_take_nth_drop [symmetric])
      have later: "\<forall>node'\<in>set (drop (Suc i) nodes). coords node' \<noteq> coords (nodes ! i)"
      proof
        fix node' assume "node' \<in> set (drop (Suc i) nodes)"
        then obtain k where "k < length nodes - Suc i" "node' = nodes ! (Suc i + k)"
          by (auto simp: in_set_conv_nth)
        with dist i show "coords node' \<noteq> coords (nodes ! i)"
          by (simp add: distinct_conv_nth)
      qed
      have wl: "\<forall>node'\<in>set (drop (Suc i) nodes). length (coords node') = ndim"
        using wf by (meson in_set_dropD)
      have n: "length (coords (nodes ! i)) = ndim" using wf i by simp
      have "store (concat (map (node_writes ndim fs t) (take i nodes @ nodes ! i # drop (Suc i) nodes)))
              (cell v0) (coords (nodes ! i) @ [int j]) = the (fs ! j) t (nodes ! i)"
        by (rule store_nodes_last [OF j later wl n])
      with split indices show ?thesis by simp
    qed
    ultimately show ?thesis by simp
  next
    case False
    then have no: "\<forall>i<length nodes. \<forall>j<ndim. indices \<noteq> coords (nodes ! i) @ [int j]" by blast
    then have "\<forall>i<length nodes. \<forall>j<stores_done ndim (fst (bodies ! i)).
           indices \<noteq> coords (nodes ! i) @ [int j]"
      using all by simp
    with inv have "cell v indices = cell v0 indices"
      by (simp add: OMP_invariant_def)
    moreover have "\<forall>node\<in>set nodes. indices \<notin> (\<lambda>j. coords node @ [int j]) ` {..<ndim}"
    proof
      fix node assume "node \<in> set nodes"
      then obtain i where "i < length nodes" "node = nodes ! i"
        by (auto simp: in_set_conv_nth)
      with no show "indices \<notin> (\<lambda>j. coords node @ [int j]) ` {..<ndim}"
        by blast
    qed
    from store_nodes_frame [OF this]
    have "store (concat (map (node_writes ndim fs t) nodes)) (cell v0) indices = cell v0 indices" .
    ultimately show ?thesis by simp
  qed
  then have "cell v = store (concat (map (node_writes ndim fs t) nodes)) (cell v0)"
    by (rule ext)
  with dims show ?thesis by simp
qed

lemma OMP_initial:
  assumes "\<forall>node\<in>set nodes. length (coords node) = ndim"
  shows "OMP_invariant ndim fs t nodes v0
           (replicate (length nodes) (Copy 0, replicate (Suc ndim) 0)) v0"
  by (simp add: OMP_invariant_def)

text \<open>
  The thread-parallel variant agrees with the sequential initializer under every schedule,
  provided the call is defined and no coordinate occurs twice in a node list: its bodies
  store into disjoint cells, and each forms its index in an array of its own.
\<close>

theorem OMP_agrees:
  assumes "well_formed ndim s" "update_defined ndim s"
    and "distinct (map coords (inlet_nodes (initializer s)))"
    and "distinct (map coords (outlet_nodes (initializer s)))"
    and "OMP_update_nodes ndim t schedules s = Some r"
  shows "r = update_nodes ndim t s"
proof -
  let ?P = "initializer s" and ?v0 = "velocity_tensor s"
  let ?Win = "concat (map (node_writes ndim (inlet_update_function ?P) t) (inlet_nodes ?P))"
  let ?Wout = "concat (map (node_writes ndim (outlet_update_function ?P) t) (outlet_nodes ?P))"
  let ?v1 = "?v0\<lparr>cell := store ?Win (cell ?v0)\<rparr>"
  let ?v2 = "?v1\<lparr>cell := store ?Wout (cell ?v1)\<rparr>"
  have wi: "\<forall>node\<in>set (inlet_nodes ?P). length (coords node) = ndim"
    and wo: "\<forall>node\<in>set (outlet_nodes ?P). length (coords node) = ndim"
    using assms(1) by (simp_all add: well_formed_def)
  have di: "\<forall>node\<in>set (inlet_nodes ?P). node_defined ndim (inlet_update_function ?P) (dimensions ?v0) node"
    and do: "\<forall>node\<in>set (outlet_nodes ?P). node_defined ndim (outlet_update_function ?P) (dimensions ?v1) node"
    using assms(2) by (simp_all add: update_defined_def)
  from OMP_run_invariant [OF OMP_initial [OF wi] wi assms(3) di]
  obtain b1 v1 where run1: "OMP_parallel_for ndim (inlet_update_function ?P) t (inlet_nodes ?P)
      (fst schedules) (replicate (length (inlet_nodes ?P)) (Copy 0, replicate (Suc ndim) 0)) ?v0 = Inr (b1, v1)"
    and inv1: "OMP_invariant ndim (inlet_update_function ?P) t (inlet_nodes ?P) ?v0 b1 v1"
    by blast
  from assms(5) run1 have fin1: "list_all (\<lambda>body. fst body = Finished) b1"
    by (simp add: OMP_update_nodes_def Let_def split: if_splits)
  from OMP_finished [OF inv1 fin1 wi assms(3)] have v1: "v1 = ?v1" .
  from OMP_run_invariant [OF OMP_initial [OF wo] wo assms(4) do]
  obtain b2 v2 where run2: "OMP_parallel_for ndim (outlet_update_function ?P) t (outlet_nodes ?P)
      (snd schedules) (replicate (length (outlet_nodes ?P)) (Copy 0, replicate (Suc ndim) 0)) ?v1 = Inr (b2, v2)"
    and inv2: "OMP_invariant ndim (outlet_update_function ?P) t (outlet_nodes ?P) ?v1 b2 v2"
    by blast
  from assms(5) run1 fin1 run2 v1 have fin2: "list_all (\<lambda>body. fst body = Finished) b2"
    by (simp add: OMP_update_nodes_def Let_def split: if_splits)
  from OMP_finished [OF inv2 fin2 wo assms(4)] have v2: "v2 = ?v2" .
  from assms(5) run1 fin1 run2 fin2 v1 v2 have "r = Inr (s\<lparr>velocity_tensor := ?v2\<rparr>)"
    by (simp add: OMP_update_nodes_def Let_def)
  then show ?thesis
    by (simp add: update_nodes_Inr [OF assms(1,2)] all_writes_def)
qed

lemma inflow_sequential: "update_nodes 2 0 inflow = Inr inflow_after"
  by (simp add: update_nodes_def node_loop.simps copy_loop.simps component_loop.simps assign_def
      checkIndexRange_def inflow_def inflow_after_def lattice_def Let_def eval_nat_numeral)

lemma inflow_OMP_racing:
  "OMP_update_nodes 2 0 (racing_schedule, []) inflow = Some (Inr inflow_after)"
  by (simp add: OMP_update_nodes_def racing_schedule_def assign_def
      checkIndexRange_def inflow_def inflow_after_def lattice_def Let_def eval_nat_numeral)

lemma inflow_STDExec_racing:
  "STDExec_update_nodes 2 0 (racing_schedule, []) inflow = Some (Inr inflow_raced)"
  by (simp add: STDExec_update_nodes_def racing_schedule_def STDExec_for_each.simps(2) assign_def
      checkIndexRange_def inflow_def inflow_raced_def lattice_def Let_def eval_nat_numeral)

section \<open>The claims of the specification\<close>

text \<open>
  \<^bold>\<open>C1\<close> (as amended). When the call is defined (every function a registered node needs is
  set and every cell it addresses is within the tensor), \<open>update_nodes\<close> returns normally,
  and the velocity cells are the old ones with the stores of all inlet nodes and then of all
  outlet nodes replayed in order, component by component. A cell of a registered point holds
  that point's function value unless a point processed later (a later entry of the same list,
  or, for an inlet point, any outlet point) has the same coordinates.
\<close>

theorem update_nodes_stores:
  assumes "well_formed ndim s" "update_defined ndim s"
  shows "\<exists>s'. update_nodes ndim time_step s = Inr s' \<and>
     cell (velocity_tensor s') = store (all_writes ndim time_step s) (cell (velocity_tensor s)) \<and>
     (\<forall>i<length (inlet_nodes (initializer s)). \<forall>j<ndim.
        coords (inlet_nodes (initializer s) ! i) \<notin>
          coords ` set (drop (Suc i) (inlet_nodes (initializer s)) @ outlet_nodes (initializer s)) \<longrightarrow>
        cell (velocity_tensor s') (coords (inlet_nodes (initializer s) ! i) @ [int j]) =
          the (inlet_update_function (initializer s) ! j) time_step (inlet_nodes (initializer s) ! i)) \<and>
     (\<forall>i<length (outlet_nodes (initializer s)). \<forall>j<ndim.
        coords (outlet_nodes (initializer s) ! i) \<notin>
          coords ` set (drop (Suc i) (outlet_nodes (initializer s))) \<longrightarrow>
        cell (velocity_tensor s') (coords (outlet_nodes (initializer s) ! i) @ [int j]) =
          the (outlet_update_function (initializer s) ! j) time_step (outlet_nodes (initializer s) ! i))"
proof -
  let ?P = "initializer s" and ?f = "cell (velocity_tensor s)"
  let ?s' = "s\<lparr>velocity_tensor := (velocity_tensor s)\<lparr>cell := store (all_writes ndim time_step s) ?f\<rparr>\<rparr>"
  let ?Win = "concat (map (node_writes ndim (inlet_update_function ?P) time_step) (inlet_nodes ?P))"
  let ?Wout = "concat (map (node_writes ndim (outlet_update_function ?P) time_step) (outlet_nodes ?P))"
  have wi: "\<forall>node\<in>set (inlet_nodes ?P). length (coords node) = ndim"
    and wo: "\<forall>node\<in>set (outlet_nodes ?P). length (coords node) = ndim"
    using assms(1) by (simp_all add: well_formed_def)
  have inlet: "store (all_writes ndim time_step s) ?f (coords (inlet_nodes ?P ! i) @ [int j]) =
      the (inlet_update_function ?P ! j) time_step (inlet_nodes ?P ! i)"
    if i: "i < length (inlet_nodes ?P)" and j: "j < ndim"
      and last: "coords (inlet_nodes ?P ! i) \<notin> coords ` set (drop (Suc i) (inlet_nodes ?P) @ outlet_nodes ?P)"
    for i j
  proof -
    let ?n = "inlet_nodes ?P ! i"
    have n: "length (coords ?n) = ndim" using wi i by simp
    have split: "inlet_nodes ?P = take i (inlet_nodes ?P) @ ?n # drop (Suc i) (inlet_nodes ?P)"
      using i by (simp add: id_take_nth_drop [symmetric])
    have later: "\<forall>node'\<in>set (drop (Suc i) (inlet_nodes ?P)). coords node' \<noteq> coords ?n"
      using last by (metis Un_iff image_eqI set_append)
    have wl: "\<forall>node'\<in>set (drop (Suc i) (inlet_nodes ?P)). length (coords node') = ndim"
      using wi by (meson in_set_dropD)
    have "take ndim (coords ?n @ [int j]) = coords ?n" using n by simp
    with last have "\<forall>node\<in>set (outlet_nodes ?P). take ndim (coords ?n @ [int j]) \<noteq> coords node"
      by (metis Un_iff image_eqI set_append)
    from store_nodes_other [OF this wo]
    have "store (all_writes ndim time_step s) ?f (coords ?n @ [int j]) = store ?Win ?f (coords ?n @ [int j])"
      by (simp add: all_writes_def)
    also have "\<dots> = store (concat (map (node_writes ndim (inlet_update_function ?P) time_step)
                   (take i (inlet_nodes ?P) @ ?n # drop (Suc i) (inlet_nodes ?P)))) ?f (coords ?n @ [int j])"
      using split by simp
    also have "\<dots> = the (inlet_update_function ?P ! j) time_step ?n"
      by (rule store_nodes_last [OF j later wl n])
    finally show ?thesis .
  qed
  have outlet: "store (all_writes ndim time_step s) ?f (coords (outlet_nodes ?P ! i) @ [int j]) =
      the (outlet_update_function ?P ! j) time_step (outlet_nodes ?P ! i)"
    if i: "i < length (outlet_nodes ?P)" and j: "j < ndim"
      and last: "coords (outlet_nodes ?P ! i) \<notin> coords ` set (drop (Suc i) (outlet_nodes ?P))"
    for i j
  proof -
    let ?n = "outlet_nodes ?P ! i"
    have n: "length (coords ?n) = ndim" using wo i by simp
    have split: "outlet_nodes ?P = take i (outlet_nodes ?P) @ ?n # drop (Suc i) (outlet_nodes ?P)"
      using i by (simp add: id_take_nth_drop [symmetric])
    have later: "\<forall>node'\<in>set (drop (Suc i) (outlet_nodes ?P)). coords node' \<noteq> coords ?n"
      using last by (metis image_eqI)
    have wl: "\<forall>node'\<in>set (drop (Suc i) (outlet_nodes ?P)). length (coords node') = ndim"
      using wo by (meson in_set_dropD)
    have "store (all_writes ndim time_step s) ?f (coords ?n @ [int j]) =
            store ?Wout (store ?Win ?f) (coords ?n @ [int j])"
      by (simp add: all_writes_def)
    also have "\<dots> = store (concat (map (node_writes ndim (outlet_update_function ?P) time_step)
                   (take i (outlet_nodes ?P) @ ?n # drop (Suc i) (outlet_nodes ?P)))) (store ?Win ?f) (coords ?n @ [int j])"
      using split by simp
    also have "\<dots> = the (outlet_update_function ?P ! j) time_step ?n"
      by (rule store_nodes_last [OF j later wl n])
    finally show ?thesis .
  qed
  have "update_nodes ndim time_step s = Inr ?s'"
    by (rule update_nodes_Inr [OF assms])
  moreover have "cell (velocity_tensor ?s') = store (all_writes ndim time_step s) ?f"
    by simp
  ultimately show ?thesis
    using inlet outlet by (intro exI [of _ ?s']) simp
qed

theorem update_nodes_stores_witness:
  "well_formed 2 cavity \<and> update_defined 2 cavity \<and>
   (\<exists>s'. update_nodes 2 1 cavity = Inr s' \<and>
      cell (velocity_tensor s') [0, 1, 0] = 0.2 \<and> cell (velocity_tensor s') [0, 1, 1] = 0 \<and>
      cell (velocity_tensor s') [0, 2, 0] = 0.2 \<and> cell (velocity_tensor s') [0, 2, 1] = 0 \<and>
      cell (velocity_tensor s') [2, 1, 0] = 1 \<and> cell (velocity_tensor s') [2, 1, 1] = 1)"
proof -
  from update_nodes_stores [OF cavity_well_formed cavity_update_defined, of 1]
  obtain s' where "update_nodes 2 1 cavity = Inr s'"
    and "\<forall>i<length (inlet_nodes (initializer cavity)). \<forall>j<2.
        coords (inlet_nodes (initializer cavity) ! i) \<notin>
          coords ` set (drop (Suc i) (inlet_nodes (initializer cavity)) @ outlet_nodes (initializer cavity)) \<longrightarrow>
        cell (velocity_tensor s') (coords (inlet_nodes (initializer cavity) ! i) @ [int j]) =
          the (inlet_update_function (initializer cavity) ! j) 1 (inlet_nodes (initializer cavity) ! i)"
    and "\<forall>i<length (outlet_nodes (initializer cavity)). \<forall>j<2.
        coords (outlet_nodes (initializer cavity) ! i) \<notin>
          coords ` set (drop (Suc i) (outlet_nodes (initializer cavity))) \<longrightarrow>
        cell (velocity_tensor s') (coords (outlet_nodes (initializer cavity) ! i) @ [int j]) =
          the (outlet_update_function (initializer cavity) ! j) 1 (outlet_nodes (initializer cavity) ! i)"
    by blast
  then show ?thesis
    using cavity_well_formed cavity_update_defined
    by (simp add: cavity_def all_less_2 All_less_Suc)
qed

text \<open>
  Without the proviso the statement fails where one coordinate is registered as inlet and as
  outlet: the cell holds the outlet value 2, not the inlet function's value 1.
\<close>

theorem update_nodes_stores_counterexample:
  "update_nodes 2 0 overlap = Inr overlap_after \<and>
   cell (velocity_tensor overlap_after) (coords (inlet_nodes (initializer overlap) ! 0) @ [0]) \<noteq>
     the (inlet_update_function (initializer overlap) ! 0) 0 (inlet_nodes (initializer overlap) ! 0)"
  by (simp add: overlap_update) (simp add: overlap_after_def overlap_def)

text \<open>
  \<^bold>\<open>C5\<close>. With no inlet and no outlet node registered, \<open>update_nodes\<close> returns normally and
  changes nothing, whatever the function arrays hold: calling an unset function would have
  been the error \<open>BadFunctionCall\<close>, so none is called.
\<close>

theorem update_nodes_no_nodes:
  assumes "inlet_nodes (initializer s) = []" "outlet_nodes (initializer s) = []"
  shows "update_nodes ndim time_step s = Inr s"
  using assms by (simp add: update_nodes_def node_loop.simps [of _ _ _ _ 0])

theorem update_nodes_no_nodes_witness:
  "inlet_update_function (initializer unattached) = [None, None] \<and>
   outlet_update_function (initializer unattached) = [None, None] \<and>
   update_nodes 2 (0::real) unattached = Inr unattached"
  using update_nodes_no_nodes [of unattached 2 0] by (simp add: unattached_def)

text \<open>
  \<^bold>\<open>C7\<close>. A call of \<open>update_nodes\<close> that returns leaves the static members of the initializer
  as they were: the node lists and function arrays are the ones the attach calls registered.
\<close>

theorem update_nodes_keeps_registration:
  assumes "s = attach_update_functions inlet_fs outlet_fs (attach_nodes inlets outlets s0)"
    and "update_nodes ndim time_step s = Inr s'"
  shows "initializer s' = initializer s \<and>
         inlet_nodes (initializer s') = inlets \<and> outlet_nodes (initializer s') = outlets \<and>
         inlet_update_function (initializer s') = inlet_fs \<and>
         outlet_update_function (initializer s') = outlet_fs"
proof -
  from assms(2) have "initializer s' = initializer s"
    by (auto simp: update_nodes_def Let_def split: sum.splits)
  with assms(1) show ?thesis
    by (simp add: attach_nodes_def attach_update_functions_def)
qed

theorem update_nodes_keeps_registration_witness:
  "cavity =
     attach_update_functions
       [Some (\<lambda>t p. 0.2), Some (\<lambda>t p. 0)] [Some (\<lambda>t p. t), Some (\<lambda>t p. real_of_int (coords p ! 1))]
       (attach_nodes [\<lparr>coords = [0, 1]\<rparr>, \<lparr>coords = [0, 2]\<rparr>] [\<lparr>coords = [2, 1]\<rparr>] unattached) \<and>
   (\<exists>s'. update_nodes 2 1 cavity = Inr s' \<and> initializer s' = initializer cavity \<and>
      inlet_nodes (initializer s') = [\<lparr>coords = [0, 1]\<rparr>, \<lparr>coords = [0, 2]\<rparr>] \<and>
      outlet_nodes (initializer s') = [\<lparr>coords = [2, 1]\<rparr>])"
proof -
  have a: "cavity =
     attach_update_functions
       [Some (\<lambda>t p. 0.2), Some (\<lambda>t p. 0)] [Some (\<lambda>t p. t), Some (\<lambda>t p. real_of_int (coords p ! 1))]
       (attach_nodes [\<lparr>coords = [0, 1]\<rparr>, \<lparr>coords = [0, 2]\<rparr>] [\<lparr>coords = [2, 1]\<rparr>] unattached)"
    by (simp add: cavity_def unattached_def attach_nodes_def attach_update_functions_def)
  from cavity_returns [of 1] obtain s' where s': "update_nodes 2 1 cavity = Inr s'" ..
  from update_nodes_keeps_registration [OF a s'] a s' show ?thesis by blast
qed

text \<open>
  \<^bold>\<open>C8\<close>. The density tensor is a by-value parameter: after a call that returns, the caller's
  density tensor is the one it passed.
\<close>

theorem update_nodes_keeps_density:
  assumes "update_nodes ndim time_step s = Inr s'"
  shows "density_tensor s' = density_tensor s"
  using assms by (auto simp: update_nodes_def Let_def split: sum.splits)

theorem update_nodes_keeps_density_witness:
  "\<exists>s'. update_nodes 2 1 cavity = Inr s' \<and> density_tensor s' = density_tensor cavity"
proof -
  from cavity_returns [of 1] obtain s' where s': "update_nodes 2 1 cavity = Inr s'" ..
  from update_nodes_keeps_density [OF s'] s' show ?thesis by blast
qed

text \<open>
  \<^bold>\<open>C10\<close>. \<open>update_nodes\<close> is deterministic: two invocations with equal registered node lists
  and update functions, equal time and equal velocity tensors before the call have the same
  outcome (the same error, or the same velocity tensor after the call), whatever the
  uninitialised array \<open>coordinates\<close> holds at its declaration in either invocation and
  whatever the density tensors are. The invocation of the model that starts from zeros is one
  of them.
\<close>

theorem update_nodes_deterministic:
  assumes "initializer s1 = initializer s2" "velocity_tensor s1 = velocity_tensor s2"
    and "length c1 = Suc ndim" "length c2 = Suc ndim"
  shows "map_sum id velocity_tensor (update_nodes_scratch c1 ndim time_step s1) =
         map_sum id velocity_tensor (update_nodes_scratch c2 ndim time_step s2) \<and>
         map_sum id velocity_tensor (update_nodes ndim time_step s1) =
         map_sum id velocity_tensor (update_nodes_scratch c2 ndim time_step s2)"
proof
  show "map_sum id velocity_tensor (update_nodes_scratch c1 ndim time_step s1) =
        map_sum id velocity_tensor (update_nodes_scratch c2 ndim time_step s2)"
    by (rule update_nodes_scratch_outcome [OF assms])
  have "length (replicate (Suc ndim) (0::int)) = Suc ndim" by simp
  from update_nodes_scratch_outcome [OF assms(1,2) this assms(4)]
  show "map_sum id velocity_tensor (update_nodes ndim time_step s1) =
        map_sum id velocity_tensor (update_nodes_scratch c2 ndim time_step s2)"
    by (simp add: update_nodes_zero_scratch)
qed

theorem update_nodes_deterministic_witness:
  "initializer cavity = initializer cavity_refilled \<and>
   velocity_tensor cavity = velocity_tensor cavity_refilled \<and>
   density_tensor cavity \<noteq> density_tensor cavity_refilled \<and>
   length [0, 0, 0 :: int] = Suc 2 \<and> length [7, - 3, 5 :: int] = Suc 2 \<and>
   map_sum id velocity_tensor (update_nodes_scratch [0, 0, 0] 2 1 cavity) =
   map_sum id velocity_tensor (update_nodes_scratch [7, - 3, 5] 2 1 cavity_refilled) \<and>
   map_sum id velocity_tensor (update_nodes 2 1 cavity) =
   map_sum id velocity_tensor (update_nodes_scratch [7, - 3, 5] 2 1 cavity_refilled) \<and>
   (\<exists>s'. update_nodes_scratch [7, - 3, 5] 2 1 cavity_refilled = Inr s' \<and>
      cell (velocity_tensor s') [0, 1, 0] = 0.2 \<and> cell (velocity_tensor s') [2, 1, 1] = 1)"
proof -
  have eq: "initializer cavity = initializer cavity_refilled"
    "velocity_tensor cavity = velocity_tensor cavity_refilled"
    and ne: "density_tensor cavity \<noteq> density_tensor cavity_refilled"
    by (simp_all add: cavity_refilled_def cavity_def fun_eq_iff)
  have len: "length [0, 0, 0 :: int] = Suc 2" "length [7, - 3, 5 :: int] = Suc 2"
    by simp_all
  note det = update_nodes_deterministic [OF eq len, of 1]
  have "update_nodes 2 1 cavity =
          Inr (cavity\<lparr>velocity_tensor :=
                 (velocity_tensor cavity)\<lparr>cell := store (all_writes 2 1 cavity) (cell (velocity_tensor cavity))\<rparr>\<rparr>)"
    by (rule update_nodes_Inr [OF cavity_well_formed cavity_update_defined])
  with det obtain s' where s': "update_nodes_scratch [7, - 3, 5] 2 1 cavity_refilled = Inr s'"
    and v: "velocity_tensor s' =
      (velocity_tensor cavity)\<lparr>cell := store (all_writes 2 1 cavity) (cell (velocity_tensor cavity))\<rparr>"
    by (cases "update_nodes_scratch [7, - 3, 5] 2 1 cavity_refilled") auto
  have "cell (velocity_tensor s') [0, 1, 0] = 0.2" "cell (velocity_tensor s') [2, 1, 1] = 1"
    unfolding v by (simp_all add: all_writes_def node_writes_def upt_2 cavity_def)
  with s' eq ne len det show ?thesis by blast
qed

text \<open>
  \<^bold>\<open>C3\<close>. A call of \<open>update_nodes\<close> that returns leaves the extents of the velocity tensor and
  every cell whose node coordinates (the index without its last entry) are not those of a
  registered inlet or outlet point as they were. In particular, at time 0, with two inlet
  points \<open>p\<close> and \<open>q\<close> inside the tensor, no outlet point and the constant inlet functions
  (0.2, 0), the call returns, the cells of \<open>p\<close> and \<open>q\<close> hold 0.2 in component 0 and 0 in
  component 1, and every other cell holds what it held.
\<close>

theorem update_nodes_frame:
  "(well_formed ndim s \<and> update_nodes ndim time_step s = Inr s' \<longrightarrow>
      dimensions (velocity_tensor s') = dimensions (velocity_tensor s) \<and>
      (\<forall>indices.
         (\<forall>node \<in> set (inlet_nodes (initializer s)) \<union> set (outlet_nodes (initializer s)).
            take ndim indices \<noteq> coords node) \<longrightarrow>
         cell (velocity_tensor s') indices = cell (velocity_tensor s) indices)) \<and>
   (inlet_nodes (initializer c) = [p, q] \<and> outlet_nodes (initializer c) = [] \<and>
    inlet_update_function (initializer c) = [Some (\<lambda>t node. 0.2), Some (\<lambda>t node. 0)] \<and>
    length (outlet_update_function (initializer c)) = 2 \<and>
    length (coords p) = 2 \<and> length (coords q) = 2 \<and>
    checkIndexRange (dimensions (velocity_tensor c)) (coords p @ [0]) \<and>
    checkIndexRange (dimensions (velocity_tensor c)) (coords p @ [1]) \<and>
    checkIndexRange (dimensions (velocity_tensor c)) (coords q @ [0]) \<and>
    checkIndexRange (dimensions (velocity_tensor c)) (coords q @ [1]) \<longrightarrow>
    (\<exists>c'. update_nodes 2 (0::real) c = Inr c' \<and>
       (\<forall>indices. cell (velocity_tensor c') indices =
          (if indices = coords p @ [0] \<or> indices = coords q @ [0] then (0.2::real)
           else if indices = coords p @ [1] \<or> indices = coords q @ [1] then 0
           else cell (velocity_tensor c) indices))))"
proof (intro conjI impI)
  assume "well_formed ndim s \<and> update_nodes ndim time_step s = Inr s'"
  then have "well_formed ndim s" and "update_nodes ndim time_step s = Inr s'"
    by simp_all
  then show "dimensions (velocity_tensor s') = dimensions (velocity_tensor s)"
    by (rule update_nodes_dimensions)
next
  assume "well_formed ndim s \<and> update_nodes ndim time_step s = Inr s'"
  then have a: "well_formed ndim s" "update_nodes ndim time_step s = Inr s'"
    by simp_all
  show "\<forall>indices.
         (\<forall>node \<in> set (inlet_nodes (initializer s)) \<union> set (outlet_nodes (initializer s)).
            take ndim indices \<noteq> coords node) \<longrightarrow>
         cell (velocity_tensor s') indices = cell (velocity_tensor s) indices"
    by (intro allI impI) (rule update_nodes_untouched [OF a])
next
  assume a: "inlet_nodes (initializer c) = [p, q] \<and> outlet_nodes (initializer c) = [] \<and>
    inlet_update_function (initializer c) = [Some (\<lambda>t node. 0.2), Some (\<lambda>t node. 0)] \<and>
    length (outlet_update_function (initializer c)) = 2 \<and>
    length (coords p) = 2 \<and> length (coords q) = 2 \<and>
    checkIndexRange (dimensions (velocity_tensor c)) (coords p @ [0]) \<and>
    checkIndexRange (dimensions (velocity_tensor c)) (coords p @ [1]) \<and>
    checkIndexRange (dimensions (velocity_tensor c)) (coords q @ [0]) \<and>
    checkIndexRange (dimensions (velocity_tensor c)) (coords q @ [1])"
  then have wf: "well_formed 2 c"
    by (simp add: well_formed_def)
  from a have df: "update_defined 2 c"
    by (simp add: update_defined_def node_defined_def all_less_2)
  have "\<forall>indices. store (all_writes 2 0 c) (cell (velocity_tensor c)) indices =
          (if indices = coords p @ [0] \<or> indices = coords q @ [0] then (0.2::real)
           else if indices = coords p @ [1] \<or> indices = coords q @ [1] then 0
           else cell (velocity_tensor c) indices)"
    using a by (simp add: all_writes_def node_writes_def upt_2)
  then show "\<exists>c'. update_nodes 2 (0::real) c = Inr c' \<and>
       (\<forall>indices. cell (velocity_tensor c') indices =
          (if indices = coords p @ [0] \<or> indices = coords q @ [0] then (0.2::real)
           else if indices = coords p @ [1] \<or> indices = coords q @ [1] then 0
           else cell (velocity_tensor c) indices))"
    unfolding update_nodes_Inr [OF wf df] by simp
qed

theorem update_nodes_frame_witness:
  "well_formed 2 inflow \<and>
   outlet_update_function (initializer inflow) = [None, None] \<and>
   (\<exists>s'. update_nodes 2 0 inflow = Inr s' \<and>
      dimensions (velocity_tensor s') = [3, 3, 2] \<and>
      cell (velocity_tensor s') [0, 1, 0] = 0.2 \<and> cell (velocity_tensor s') [0, 1, 1] = 0 \<and>
      cell (velocity_tensor s') [0, 2, 0] = 0.2 \<and> cell (velocity_tensor s') [0, 2, 1] = 0 \<and>
      cell (velocity_tensor s') [0, 0, 0] = cell lattice [0, 0, 0] \<and>
      cell (velocity_tensor s') [1, 1, 1] = cell lattice [1, 1, 1])"
proof -
  let ?p = "\<lparr>coords = [0, 1]\<rparr>" and ?q = "\<lparr>coords = [0, 2]\<rparr>"
  have wf: "well_formed 2 inflow"
    by (simp add: well_formed_def inflow_def)
  have "inlet_nodes (initializer inflow) = [?p, ?q] \<and> outlet_nodes (initializer inflow) = [] \<and>
    inlet_update_function (initializer inflow) = [Some (\<lambda>t node. 0.2), Some (\<lambda>t node. 0)] \<and>
    length (outlet_update_function (initializer inflow)) = 2 \<and>
    length (coords ?p) = 2 \<and> length (coords ?q) = 2 \<and>
    checkIndexRange (dimensions (velocity_tensor inflow)) (coords ?p @ [0]) \<and>
    checkIndexRange (dimensions (velocity_tensor inflow)) (coords ?p @ [1]) \<and>
    checkIndexRange (dimensions (velocity_tensor inflow)) (coords ?q @ [0]) \<and>
    checkIndexRange (dimensions (velocity_tensor inflow)) (coords ?q @ [1])"
    by (simp add: inflow_def lattice_def checkIndexRange_def)
  from update_nodes_frame [of 2 inflow 0 inflow inflow ?p ?q, THEN conjunct2, THEN mp, OF this]
  obtain s' where s': "update_nodes 2 0 inflow = Inr s'"
    and cells: "\<forall>indices. cell (velocity_tensor s') indices =
          (if indices = coords ?p @ [0] \<or> indices = coords ?q @ [0] then 0.2
           else if indices = coords ?p @ [1] \<or> indices = coords ?q @ [1] then 0
           else cell (velocity_tensor inflow) indices)"
    by blast
  from update_nodes_frame [of 2 inflow 0 s' inflow ?p ?q, THEN conjunct1] wf s'
  have d: "dimensions (velocity_tensor s') = dimensions (velocity_tensor inflow)"
    and u: "\<forall>indices.
         (\<forall>node \<in> set (inlet_nodes (initializer inflow)) \<union> set (outlet_nodes (initializer inflow)).
            take 2 indices \<noteq> coords node) \<longrightarrow>
         cell (velocity_tensor s') indices = cell (velocity_tensor inflow) indices"
    by simp_all
  from u [THEN spec, of "[0, 0, 0]"] u [THEN spec, of "[1, 1, 1]"]
  have untouched: "cell (velocity_tensor s') [0, 0, 0] = cell lattice [0, 0, 0]"
    "cell (velocity_tensor s') [1, 1, 1] = cell lattice [1, 1, 1]"
    by (simp_all add: inflow_def)
  from cells [THEN spec, of "[0, 1, 0]"] cells [THEN spec, of "[0, 1, 1]"]
    cells [THEN spec, of "[0, 2, 0]"] cells [THEN spec, of "[0, 2, 1]"]
  have written: "cell (velocity_tensor s') [0, 1, 0] = 0.2" "cell (velocity_tensor s') [0, 1, 1] = 0"
    "cell (velocity_tensor s') [0, 2, 0] = 0.2" "cell (velocity_tensor s') [0, 2, 1] = 0"
    by simp_all
  from d have "dimensions (velocity_tensor s') = [3, 3, 2]"
    by (simp add: inflow_def lattice_def)
  moreover have "outlet_update_function (initializer inflow) = [None, None]"
    by (simp add: inflow_def)
  ultimately show ?thesis
    using wf s' untouched written by blast
qed

text \<open>
  \<^bold>\<open>C4\<close>. \<open>attach_nodes\<close> replaces the registered lists: after a second call the lists are the
  new ones, and an \<open>update_nodes\<close> that returns changes no cell outside the new nodes; in
  particular no cell of a node that was registered before and is not registered now.
\<close>

theorem attach_nodes_replaces:
  assumes "s = attach_nodes new_inlets new_outlets (attach_nodes old_inlets old_outlets s0)"
    and "well_formed ndim s" "update_nodes ndim time_step s = Inr s'"
  shows "inlet_nodes (initializer s) = new_inlets \<and> outlet_nodes (initializer s) = new_outlets \<and>
     (\<forall>indices. take ndim indices \<notin> coords ` (set new_inlets \<union> set new_outlets) \<longrightarrow>
        cell (velocity_tensor s') indices = cell (velocity_tensor s0) indices) \<and>
     (\<forall>node \<in> set old_inlets \<union> set old_outlets.
        coords node \<notin> coords ` (set new_inlets \<union> set new_outlets) \<longrightarrow>
        (\<forall>indices. take ndim indices = coords node \<longrightarrow>
           cell (velocity_tensor s') indices = cell (velocity_tensor s0) indices))"
proof -
  have nodes: "inlet_nodes (initializer s) = new_inlets" "outlet_nodes (initializer s) = new_outlets"
    and v: "velocity_tensor s = velocity_tensor s0"
    using assms(1) by (simp_all add: attach_nodes_def)
  have frame: "cell (velocity_tensor s') indices = cell (velocity_tensor s0) indices"
    if "take ndim indices \<notin> coords ` (set new_inlets \<union> set new_outlets)" for indices
  proof -
    from that have "\<forall>node \<in> set (inlet_nodes (initializer s)) \<union> set (outlet_nodes (initializer s)).
           take ndim indices \<noteq> coords node"
      unfolding nodes by (metis image_eqI)
    from update_nodes_untouched [OF assms(2,3) this] v show ?thesis by simp
  qed
  then have "\<forall>node \<in> set old_inlets \<union> set old_outlets.
        coords node \<notin> coords ` (set new_inlets \<union> set new_outlets) \<longrightarrow>
        (\<forall>indices. take ndim indices = coords node \<longrightarrow>
           cell (velocity_tensor s') indices = cell (velocity_tensor s0) indices)"
    by metis
  with nodes frame show ?thesis by simp
qed

theorem attach_nodes_replaces_witness:
  "well_formed 2 reattached \<and>
   (\<exists>s'. update_nodes 2 1 reattached = Inr s' \<and>
      inlet_nodes (initializer reattached) = [\<lparr>coords = [0, 1]\<rparr>] \<and>
      outlet_nodes (initializer reattached) = [] \<and>
      cell (velocity_tensor s') [0, 2, 0] = cell (velocity_tensor cavity) [0, 2, 0] \<and>
      cell (velocity_tensor s') [0, 2, 1] = cell (velocity_tensor cavity) [0, 2, 1] \<and>
      cell (velocity_tensor s') [2, 1, 0] = cell (velocity_tensor cavity) [2, 1, 0] \<and>
      cell (velocity_tensor s') [2, 1, 1] = cell (velocity_tensor cavity) [2, 1, 1])"
proof -
  have wf: "well_formed 2 reattached"
    by (simp add: well_formed_def reattached_def attach_nodes_def cavity_def)
  have "update_defined 2 reattached"
    by (simp add: update_defined_def node_defined_def all_less_2 reattached_def attach_nodes_def
        cavity_def lattice_def checkIndexRange_def)
  from update_nodes_Inr [OF wf this, of 1]
  obtain s' where s': "update_nodes 2 1 reattached = Inr s'" by blast
  from attach_nodes_replaces [OF reattached_def wf s']
  have nodes: "inlet_nodes (initializer reattached) = [\<lparr>coords = [0, 1]\<rparr>]"
      "outlet_nodes (initializer reattached) = []"
    and frame: "\<forall>indices. take 2 indices \<notin> coords ` (set [\<lparr>coords = [0, 1]\<rparr>] \<union> set []) \<longrightarrow>
        cell (velocity_tensor s') indices = cell (velocity_tensor cavity) indices"
    by simp_all
  from frame [THEN spec, of "[0, 2, 0]"] frame [THEN spec, of "[0, 2, 1]"]
    frame [THEN spec, of "[2, 1, 0]"] frame [THEN spec, of "[2, 1, 1]"]
  have "cell (velocity_tensor s') [0, 2, 0] = cell (velocity_tensor cavity) [0, 2, 0]"
    "cell (velocity_tensor s') [0, 2, 1] = cell (velocity_tensor cavity) [0, 2, 1]"
    "cell (velocity_tensor s') [2, 1, 0] = cell (velocity_tensor cavity) [2, 1, 0]"
    "cell (velocity_tensor s') [2, 1, 1] = cell (velocity_tensor cavity) [2, 1, 1]"
    by simp_all
  with wf s' nodes show ?thesis by blast
qed

text \<open>
  \<^bold>\<open>C6\<close>. Two points with different coordinates write disjoint sets of cells: the sets of
  indices their updates form are disjoint, the update of either point changes no cell outside
  its own set, and so none of the other point's cells.
\<close>

theorem distinct_nodes_write_disjoint_cells:
  assumes "length (coords p) = ndim" "length (coords q) = ndim" "coords p \<noteq> coords q"
  shows "written_cells ndim p \<inter> written_cells ndim q = {} \<and>
     (length c = Suc ndim \<and> update_node ndim fs time_step p (c, T) = Inr (c', T') \<longrightarrow>
        (\<forall>indices. indices \<notin> written_cells ndim p \<longrightarrow> cell T' indices = cell T indices) \<and>
        (\<forall>indices \<in> written_cells ndim q. cell T' indices = cell T indices)) \<and>
     (length d = Suc ndim \<and> update_node ndim fs time_step q (d, U) = Inr (d', U') \<longrightarrow>
        (\<forall>indices. indices \<notin> written_cells ndim q \<longrightarrow> cell U' indices = cell U indices) \<and>
        (\<forall>indices \<in> written_cells ndim p. cell U' indices = cell U indices))"
proof -
  have disjoint: "written_cells ndim p \<inter> written_cells ndim q = {}"
    using assms by (auto simp: written_cells_eq)
  have "\<forall>indices. indices \<notin> written_cells ndim p \<longrightarrow> cell T' indices = cell T indices"
    if "length c = Suc ndim \<and> update_node ndim fs time_step p (c, T) = Inr (c', T')"
  proof (intro allI impI)
    fix indices
    assume "indices \<notin> written_cells ndim p"
    with that update_node_untouched [OF assms(1), of c fs time_step T c' T' indices]
    show "cell T' indices = cell T indices" by (simp del: update_node.simps)
  qed
  moreover have "\<forall>indices. indices \<notin> written_cells ndim q \<longrightarrow> cell U' indices = cell U indices"
    if "length d = Suc ndim \<and> update_node ndim fs time_step q (d, U) = Inr (d', U')"
  proof (intro allI impI)
    fix indices
    assume "indices \<notin> written_cells ndim q"
    with that update_node_untouched [OF assms(2), of d fs time_step U d' U' indices]
    show "cell U' indices = cell U indices" by (simp del: update_node.simps)
  qed
  ultimately show ?thesis
    using disjoint by blast
qed

theorem distinct_nodes_write_disjoint_cells_witness:
  "length (coords \<lparr>coords = [0, 1]\<rparr>) = 2 \<and> length (coords \<lparr>coords = [0, 2]\<rparr>) = 2 \<and>
   coords \<lparr>coords = [0, 1]\<rparr> \<noteq> coords \<lparr>coords = [0, 2]\<rparr> \<and>
   written_cells 2 \<lparr>coords = [0, 1]\<rparr> \<inter> written_cells 2 \<lparr>coords = [0, 2]\<rparr> = {} \<and>
   (\<exists>c' T'. update_node 2 [Some (\<lambda>t p. 0.2), Some (\<lambda>t p. 0)] (1::real) \<lparr>coords = [0, 1]\<rparr>
               ([0, 0, 0], lattice) = Inr (c', T') \<and>
      cell T' [0, 2, 0] = cell lattice [0, 2, 0] \<and> cell T' [0, 2, 1] = cell lattice [0, 2, 1])"
  using distinct_nodes_write_disjoint_cells
    [of "\<lparr>coords = [0, 1]\<rparr>" 2 "\<lparr>coords = [0, 2]\<rparr>" "[0, 0, 0]"
        "[Some (\<lambda>t p. 0.2), Some (\<lambda>t p. 0)]" "1::real" lattice "[0, 1, 1]"
        "lattice\<lparr>cell := (cell lattice)([0, 1, 0] := 0.2, [0, 1, 1] := (0::real))\<rparr>"]
    update_node_example written_cells_example
  by (simp del: update_node.simps)

text \<open>
  \<^bold>\<open>C9\<close>. When a coordinate is registered as an inlet and as an outlet, the cells at that
  coordinate hold, after a call that returns, the values of the outlet functions (at the last
  outlet point with that coordinate): the outlet loop runs after the inlet loop.
\<close>

theorem outlet_overwrites_inlet:
  assumes "well_formed ndim s" "update_nodes ndim time_step s = Inr s'"
    and "p \<in> set (inlet_nodes (initializer s))" "q \<in> set (outlet_nodes (initializer s))"
    and "coords p = coords q" "j < ndim"
  shows "cell (velocity_tensor s') (coords p @ [int j]) =
           the (outlet_update_function (initializer s) ! j) time_step
             (last (filter (\<lambda>node. coords node = coords p) (outlet_nodes (initializer s))))"
proof -
  let ?P = "initializer s" and ?f = "cell (velocity_tensor s)"
  let ?Win = "concat (map (node_writes ndim (inlet_update_function ?P) time_step) (inlet_nodes ?P))"
  have wo: "\<forall>node\<in>set (outlet_nodes ?P). length (coords node) = ndim"
    using assms(1) by (simp add: well_formed_def)
  have "\<exists>node\<in>set (outlet_nodes ?P). coords node = coords p"
    using assms(4,5) by metis
  from split_list_last_prop [OF this]
  obtain before r after where split: "outlet_nodes ?P = before @ r # after"
    and r: "coords r = coords p" and after: "\<forall>node\<in>set after. coords node \<noteq> coords p"
    by blast
  from after have "filter (\<lambda>node. coords node = coords p) after = []"
    by (simp add: filter_empty_conv)
  with split r have last: "last (filter (\<lambda>node. coords node = coords p) (outlet_nodes ?P)) = r"
    by simp
  have wr: "length (coords r) = ndim" and wa: "\<forall>node\<in>set after. length (coords node) = ndim"
    using wo split by simp_all
  have ar: "\<forall>node\<in>set after. coords node \<noteq> coords r"
    using after r by simp
  have "cell (velocity_tensor s') (coords p @ [int j]) =
          store (concat (map (node_writes ndim (outlet_update_function ?P) time_step)
                   (before @ r # after))) (store ?Win ?f) (coords r @ [int j])"
    unfolding update_nodes_cells [OF assms(1,2)] using split r by (simp add: all_writes_def)
  also have "\<dots> = the (outlet_update_function ?P ! j) time_step r"
    by (rule store_nodes_last [OF assms(6) ar wa wr])
  finally show ?thesis
    using last by simp
qed

theorem outlet_overwrites_inlet_witness:
  "well_formed 2 overlap \<and> update_nodes 2 0 overlap = Inr overlap_after \<and>
   \<lparr>coords = [0, 1]\<rparr> \<in> set (inlet_nodes (initializer overlap)) \<and>
   \<lparr>coords = [0, 1]\<rparr> \<in> set (outlet_nodes (initializer overlap)) \<and>
   cell (velocity_tensor overlap_after) [0, 1, 0] = 2"
  using outlet_overwrites_inlet [OF overlap_well_formed overlap_update, of "\<lparr>coords = [0, 1]\<rparr>" "\<lparr>coords = [0, 1]\<rparr>" 0 0]
    overlap_well_formed overlap_update [of 0]
  by (simp add: overlap_def)

text \<open>
  \<^bold>\<open>C2\<close> fails for the data-parallel variant. On \<open>inflow\<close> (two inlet nodes with different
  coordinates, all functions needed set, all cells inside the tensor) the sequential, the
  accelerator and, under the racing schedule, the thread-parallel variant (private
  \<open>coordinates\<close>) store 0.2 and 0 into the cells of both nodes. The data-parallel variant,
  whose bodies share \<open>coordinates\<close>, under the same schedule stores the values of the first
  node into the cells of the second and leaves the cells of the first node as they were.
\<close>

theorem STDExec_shared_coordinates_race:
  "update_nodes 2 0 inflow = Inr inflow_after \<and>
   OpenACC_update_nodes 2 0 inflow = Inr inflow_after \<and>
   OMP_update_nodes 2 0 (racing_schedule, []) inflow = Some (Inr inflow_after) \<and>
   STDExec_update_nodes 2 0 (racing_schedule, []) inflow = Some (Inr inflow_raced) \<and>
   cell (velocity_tensor inflow_after) [0, 1, 0] = 0.2 \<and>
   cell (velocity_tensor inflow_raced) [0, 1, 0] = 0"
  by (simp add: OpenACC_update_nodes_eq inflow_sequential inflow_OMP_racing inflow_STDExec_racing)
    (simp add: inflow_after_def inflow_raced_def lattice_def)

end
